theory Spec2Isabelle
  imports Complex_Main "HOL-Library.Log_Nat"
begin

section \<open>The sample generator \<^verbatim>\<open>JVD/gensamples.py\<close>\<close>

text \<open>
  The script is a module body of three blocks of the same shape:
  \<^verbatim>\<open>
  with open('data/normal.txt', 'w') as f:
      for n in st.norm.rvs(loc=100., scale=10., size=100):
          f.write('{}\n'.format(n))
  \<close>
  followed by the same block for \<^verbatim>\<open>st.uniform.rvs(loc=75., scale=50., size=100)\<close> on
  \<^verbatim>\<open>data/uniform.txt\<close> and for \<^verbatim>\<open>st.expon.rvs(loc=0., scale=100., size=100)\<close> on
  \<^verbatim>\<open>data/exponential.txt\<close>.

  The embedding makes explicit what the script leaves to its runtime: the values are
  binary64 floating-point numbers, the random variates come from the process-wide
  generator of the library, the files live in a file system, and every file operation
  may raise \<^verbatim>\<open>OSError\<close>.
\<close>

subsection \<open>Binary64 values\<close>

text \<open>
  A finite binary64 number is a rational \<open>m * 2 ^ q\<close> with \<open>\<bar>m\<bar> < 2 ^ 53\<close> and
  \<open>- 1074 \<le> q\<close>. Every arithmetic operation of the script returns the exact result
  rounded to the nearest such number, ties to the even significand.
  \<open>rne\<close> rounds a rational to the nearest integer, ties to even; \<open>expo x\<close> is the
  binary exponent \<open>\<lfloor>log\<^sub>2 \<bar>x\<bar>\<rfloor>\<close> of a non-zero \<open>x\<close>; \<open>quantum x\<close> is the exponent of
  the unit in the last place at \<open>x\<close> (clamped in the subnormal range).
\<close>

definition rne :: "rat \<Rightarrow> int" where
  "rne r = (let f = \<lfloor>r\<rfloor>; d = r - of_int f in
     if d < 1 / 2 then f else if 1 / 2 < d then f + 1 else if even f then f else f + 1)"

definition expo :: "rat \<Rightarrow> int" where
  "expo x = (if 1 \<le> \<bar>x\<bar> then bitlen \<lfloor>\<bar>x\<bar>\<rfloor> - 1 else - bitlen (\<lceil>1 / \<bar>x\<bar>\<rceil> - 1))"

definition quantum :: "rat \<Rightarrow> int" where
  "quantum x = max (expo x - 52) (- 1074)"

definition round64 :: "rat \<Rightarrow> rat" where
  "round64 x = (if x = 0 then 0 else of_int (rne (x / 2 powi quantum x)) * 2 powi quantum x)"

text \<open>
  A rounded result of magnitude \<open>huge\<close>, that is \<open>2 ^ 1024\<close>, or more overflows to an
  infinity. The operands of the script's arithmetic are finite (the variates of the
  library and the constants \<^verbatim>\<open>loc\<close> and \<^verbatim>\<open>scale\<close>), so no NaN arises; the sign of a
  zero is not represented. \<open>fmul\<close> is the product of two finite numbers, \<open>fadd\<close> the sum
  of a number and a finite one, \<open>fle\<close> and \<open>flt\<close> are the comparisons \<^verbatim>\<open><=\<close> and \<^verbatim>\<open><\<close>.
\<close>

datatype float64 = Fin rat | PInf | NInf

definition huge :: rat where
  "huge = 2 ^ 1024"

definition overflow :: "rat \<Rightarrow> float64" where
  "overflow y = (if huge \<le> y then PInf else if y \<le> - huge then NInf else Fin y)"

definition fmul :: "rat \<Rightarrow> rat \<Rightarrow> float64" where
  "fmul a b = overflow (round64 (a * b))"

fun fadd :: "float64 \<Rightarrow> rat \<Rightarrow> float64" where
  "fadd (Fin a) b = overflow (round64 (a + b))"
| "fadd PInf b = PInf"
| "fadd NInf b = NInf"

fun fle :: "float64 \<Rightarrow> float64 \<Rightarrow> bool" where
  "fle (Fin a) (Fin b) = (a \<le> b)"
| "fle NInf b = True"
| "fle a PInf = True"
| "fle a b = False"

definition flt :: "float64 \<Rightarrow> float64 \<Rightarrow> bool" where
  "flt a b = (fle a b \<and> a \<noteq> b)"

subsection \<open>The library's random variates\<close>

text \<open>
  \<^verbatim>\<open>scipy.stats\<close> draws from a location-scale family \<^verbatim>\<open>d\<close> by asking the process-wide
  generator for \<^verbatim>\<open>size\<close> standard variates of that family and returning
  \<^verbatim>\<open>vals * scale + loc\<close>, computed in binary64 (a product, then a sum). The generator is
  the parameter \<open>g\<close>: \<open>g d i\<close> is the standard variate of family \<open>d\<close> it hands out
  when \<open>i\<close> variates have been consumed before.
\<close>

datatype dist = Norm | Uniform | Expon

type_synonym source = "dist \<Rightarrow> nat \<Rightarrow> rat"

definition loc_scale :: "rat \<Rightarrow> rat \<Rightarrow> rat \<Rightarrow> float64" where
  "loc_scale loc scale z = fadd (fmul z scale) loc"

definition variates :: "source \<Rightarrow> dist \<Rightarrow> rat \<Rightarrow> rat \<Rightarrow> nat \<Rightarrow> nat \<Rightarrow> float64 list" where
  "variates g d loc scale c sz = map (\<lambda>i. loc_scale loc scale (g d i)) [c ..< c + sz]"

subsection \<open>Files, handles and the trace of effects\<close>

type_synonym path = string

datatype io_op = Open path | Write path nat | Close path

datatype event = Io io_op | Draw dist nat

datatype error = OSError io_op

record state =
  files :: "path \<rightharpoonup> string"
  handles :: "path set"
  cursor :: nat
  trace :: "event list"

type_synonym io_env = "io_op \<Rightarrow> bool"

abbreviation newline :: char where
  "newline \<equiv> CHR 0x0A"

definition emit :: "event \<Rightarrow> state \<Rightarrow> state" where
  "emit e s = s\<lparr>trace := trace s @ [e]\<rparr>"

text \<open>\<^verbatim>\<open>open(p, 'w')\<close> that succeeds: the file exists and is empty, the handle is held.\<close>

definition open_w :: "path \<Rightarrow> state \<Rightarrow> state" where
  "open_w p s = s\<lparr>files := (files s)(p \<mapsto> []), handles := insert p (handles s)\<rparr>"

text \<open>\<^verbatim>\<open>f.write(txt)\<close> that succeeds: the text is appended to the file.\<close>

definition f_write :: "path \<Rightarrow> string \<Rightarrow> state \<Rightarrow> state" where
  "f_write p txt s =
     s\<lparr>files := (files s)(p \<mapsto> (case files s p of None \<Rightarrow> txt | Some c \<Rightarrow> c @ txt))\<rparr>"

text \<open>Leaving the \<^verbatim>\<open>with\<close> block: the handle is released, whether closing succeeds or not.\<close>

definition close_f :: "path \<Rightarrow> state \<Rightarrow> state" where
  "close_f p s = s\<lparr>handles := handles s - {p}\<rparr>"

text \<open>\<^verbatim>\<open>st.<d>.rvs(loc, scale, size)\<close>: the array of samples, and the generator advanced.\<close>

definition rvs :: "source \<Rightarrow> dist \<Rightarrow> rat \<Rightarrow> rat \<Rightarrow> nat \<Rightarrow> state \<Rightarrow> float64 list \<times> state" where
  "rvs g d loc scale sz s =
     (variates g d loc scale (cursor s) sz,
      emit (Draw d sz) (s\<lparr>cursor := cursor s + sz\<rparr>))"

text \<open>\<^verbatim>\<open>'{}\n'.format(n)\<close>, with the runtime's conversion of a float to a string as \<open>fmt\<close>.\<close>

definition format_line :: "(float64 \<Rightarrow> string) \<Rightarrow> float64 \<Rightarrow> string" where
  "format_line fmt n = fmt n @ [newline]"

text \<open>
  The \<^verbatim>\<open>for\<close> loop over the samples. The environment \<open>ok\<close> says which file operations
  succeed; \<open>Write p i\<close> is the \<open>i\<close>-th call of \<^verbatim>\<open>f.write\<close> on \<open>p\<close>. A call that
  raises ends the loop with the error.
\<close>

fun write_each ::
  "io_env \<Rightarrow> (float64 \<Rightarrow> string) \<Rightarrow> path \<Rightarrow> nat \<Rightarrow> float64 list \<Rightarrow> state \<Rightarrow> (error + unit) \<times> state"
where
  "write_each ok fmt p i [] s = (Inr (), s)"
| "write_each ok fmt p i (n # ns) s =
     (let s' = emit (Io (Write p i)) s in
      if ok (Write p i) then write_each ok fmt p (Suc i) ns (f_write p (format_line fmt n) s')
      else (Inl (OSError (Write p i)), s'))"

text \<open>
  One \<^verbatim>\<open>with open(p, 'w') as f:\<close> block. When \<^verbatim>\<open>open\<close> raises nothing else happens. Otherwise
  the samples are drawn, written, and the file is closed on the way out, after a failed
  write too; an error raised by closing replaces the one in flight.
\<close>

definition with_open ::
  "io_env \<Rightarrow> (float64 \<Rightarrow> string) \<Rightarrow> source \<Rightarrow> path \<Rightarrow> dist \<Rightarrow> rat \<Rightarrow> rat \<Rightarrow> nat \<Rightarrow> state
    \<Rightarrow> (error + unit) \<times> state"
where
  "with_open ok fmt g p d loc scale sz s =
     (let s0 = emit (Io (Open p)) s in
      if \<not> ok (Open p) then (Inl (OSError (Open p)), s0)
      else
        let s1 = open_w p s0;
            (vals, s2) = rvs g d loc scale sz s1;
            (r, s3) = write_each ok fmt p 0 vals s2;
            s4 = close_f p (emit (Io (Close p)) s3)
        in if ok (Close p) then (r, s4) else (Inl (OSError (Close p)), s4))"

text \<open>The module body: the three blocks in order, an error ending the run.\<close>

definition gensamples ::
  "io_env \<Rightarrow> (float64 \<Rightarrow> string) \<Rightarrow> source \<Rightarrow> state \<Rightarrow> (error + unit) \<times> state"
where
  "gensamples ok fmt g s =
     (case with_open ok fmt g ''data/normal.txt'' Norm 100 10 100 s of
        (Inl e, s1) \<Rightarrow> (Inl e, s1)
      | (Inr u, s1) \<Rightarrow>
          (case with_open ok fmt g ''data/uniform.txt'' Uniform 75 50 100 s1 of
             (Inl e, s2) \<Rightarrow> (Inl e, s2)
           | (Inr u, s2) \<Rightarrow> with_open ok fmt g ''data/exponential.txt'' Expon 0 100 100 s2))"

text \<open>A process starts with no handle held, a fresh generator and an empty trace.\<close>

definition start :: "(path \<rightharpoonup> string) \<Rightarrow> state" where
  "start fs = \<lparr>files = fs, handles = {}, cursor = 0, trace = []\<rparr>"

text \<open>The interpreter's exit status: 1 after an uncaught exception, 0 otherwise.\<close>

definition exit_status :: "error + unit \<Rightarrow> nat" where
  "exit_status r = (case r of Inl e \<Rightarrow> 1 | Inr u \<Rightarrow> 0)"

subsection \<open>Vocabulary of the properties\<close>

text \<open>
  The text of a file that holds the samples \<open>vs\<close>, one line each; the events of \<open>m\<close>
  calls of \<^verbatim>\<open>f.write\<close> from the \<open>i\<close>-th on; the file an operation is on; and the events of
  a block in which nothing fails.
\<close>

definition contents :: "(float64 \<Rightarrow> string) \<Rightarrow> float64 list \<Rightarrow> string" where
  "contents fmt vs = concat (map (format_line fmt) vs)"

definition writes :: "path \<Rightarrow> nat \<Rightarrow> nat \<Rightarrow> event list" where
  "writes p i m = map (\<lambda>k. Io (Write p k)) [i ..< i + m]"

fun path_of :: "io_op \<Rightarrow> path" where
  "path_of (Open p) = p"
| "path_of (Write p i) = p"
| "path_of (Close p) = p"

definition block :: "path \<Rightarrow> dist \<Rightarrow> nat \<Rightarrow> event list" where
  "block p d sz = Io (Open p) # Draw d sz # writes p 0 sz @ [Io (Close p)]"

text \<open>
  The three output files; the samples of a run that starts with a fresh generator, which
  draws the normal variates at positions 0 to 99, the uniform ones at 100 to 199 and the
  exponential ones at 200 to 299; and the events of a run in which nothing fails.
\<close>

definition outputs :: "path set" where
  "outputs = {''data/normal.txt'', ''data/uniform.txt'', ''data/exponential.txt''}"

definition normal_samples :: "source \<Rightarrow> float64 list" where
  "normal_samples g = variates g Norm 100 10 0 100"

definition uniform_samples :: "source \<Rightarrow> float64 list" where
  "uniform_samples g = variates g Uniform 75 50 100 100"

definition expon_samples :: "source \<Rightarrow> float64 list" where
  "expon_samples g = variates g Expon 0 100 200 100"

definition schedule :: "event list" where
  "schedule = block ''data/normal.txt'' Norm 100 @ block ''data/uniform.txt'' Uniform 100 @
     block ''data/exponential.txt'' Expon 100"

text \<open>The lines of a text, without their terminators, as reading the file line by line gives them.\<close>

fun split_lines :: "string \<Rightarrow> string \<Rightarrow> string list" where
  "split_lines cur [] = (if cur = [] then [] else [cur])"
| "split_lines cur (c # cs) =
     (if c = newline then cur # split_lines [] cs else split_lines (cur @ [c]) cs)"

definition lines_of :: "string \<Rightarrow> string list" where
  "lines_of txt = split_lines [] txt"

text \<open>
  A conversion to run the script on. The runtime's own conversion (the shortest decimal
  string that reads back as the same number) is not modelled: the properties take the
  conversion as the parameter \<open>fmt\<close>. \<open>repr_exact\<close> prints the exact decimal expansion
  of the number, which a binary64 number has, with at most 1074 fractional digits; on
  125.0, 100.0, 75.0 and 0.0 it prints what the runtime prints.
\<close>

definition digit :: "nat \<Rightarrow> char" where
  "digit d = ''0123456789'' ! (d mod 10)"

fun digits :: "nat \<Rightarrow> string" where
  "digits n = (if n < 10 then [digit n] else digits (n div 10) @ [digit (n mod 10)])"

fun frac_digits :: "nat \<Rightarrow> rat \<Rightarrow> string" where
  "frac_digits 0 r = []"
| "frac_digits (Suc k) r =
     (if r = 0 then [] else digit (nat \<lfloor>r * 10\<rfloor>) # frac_digits k (r * 10 - of_int \<lfloor>r * 10\<rfloor>))"

definition repr_exact :: "float64 \<Rightarrow> string" where
  "repr_exact v =
     (case v of
        PInf \<Rightarrow> ''inf''
      | NInf \<Rightarrow> ''-inf''
      | Fin r \<Rightarrow>
          (if r < 0 then ''-'' else []) @ digits (nat \<lfloor>\<bar>r\<bar>\<rfloor>) @ ''.'' @
          (if \<bar>r\<bar> = of_int \<lfloor>\<bar>r\<bar>\<rfloor> then ''0'' else frac_digits 1074 (\<bar>r\<bar> - of_int \<lfloor>\<bar>r\<bar>\<rfloor>)))"

text \<open>
  Running the script again and again: each run is a new process on the files the run
  before it left, with its own environment and generator; a run that fails ends the
  sequence.
\<close>

fun reruns ::
  "(float64 \<Rightarrow> string) \<Rightarrow> (io_env \<times> source) list \<Rightarrow> (path \<rightharpoonup> string) \<Rightarrow> (path \<rightharpoonup> string) option"
where
  "reruns fmt [] fs = Some fs"
| "reruns fmt ((ok, g) # rs) fs =
     (case gensamples ok fmt g (start fs) of
        (Inl e, s') \<Rightarrow> None
      | (Inr u, s') \<Rightarrow> reruns fmt rs (files s'))"

text \<open>
  The file each family's samples go to, the file an effect is about, and the position of
  that file in the script.
\<close>

definition file_of :: "dist \<Rightarrow> path" where
  "file_of d =
     (case d of Norm \<Rightarrow> ''data/normal.txt'' | Uniform \<Rightarrow> ''data/uniform.txt''
      | Expon \<Rightarrow> ''data/exponential.txt'')"

fun target :: "event \<Rightarrow> path" where
  "target (Io op) = path_of op"
| "target (Draw d n) = file_of d"

definition stage :: "event \<Rightarrow> nat" where
  "stage e =
     (if target e = ''data/normal.txt'' then 0 else if target e = ''data/uniform.txt'' then 1
      else 2)"

section \<open>Properties\<close>

subsection \<open>Rounding is monotone\<close>

lemma rne_bounds: "\<lfloor>r\<rfloor> \<le> rne r \<and> rne r \<le> \<lfloor>r\<rfloor> + 1"
  by (simp add: rne_def Let_def)

lemma rne_of_int: "rne (of_int n) = n"
  by (simp add: rne_def Let_def)

lemma rne_le_int: "r \<le> of_int n \<Longrightarrow> rne r \<le> n"
proof (cases "r = of_int n")
  case True
  then show ?thesis by (simp add: rne_of_int)
next
  case False
  assume "r \<le> of_int n"
  with False have "r < of_int n" by simp
  then have "\<lfloor>r\<rfloor> < n" by (simp add: floor_less_iff)
  with rne_bounds [of r] show ?thesis by linarith
qed

lemma rne_ge_int: "of_int n \<le> r \<Longrightarrow> n \<le> rne r"
proof -
  assume "of_int n \<le> r"
  then have "n \<le> \<lfloor>r\<rfloor>" by (simp add: le_floor_iff)
  with rne_bounds [of r] show ?thesis by linarith
qed

lemma rne_mono: "r \<le> s \<Longrightarrow> rne r \<le> rne s"
proof -
  assume rs: "r \<le> s"
  then have fl: "\<lfloor>r\<rfloor> \<le> \<lfloor>s\<rfloor>" by (rule floor_mono)
  show ?thesis
  proof (cases "\<lfloor>r\<rfloor> = \<lfloor>s\<rfloor>")
    case True
    with rs show ?thesis by (auto simp: rne_def Let_def)
  next
    case False
    with fl have "\<lfloor>r\<rfloor> + 1 \<le> \<lfloor>s\<rfloor>" by simp
    with rne_bounds [of r] rne_bounds [of s] show ?thesis by linarith
  qed
qed

lemma expo_bounds:
  assumes "x \<noteq> 0"
  shows "2 powi expo x \<le> \<bar>x\<bar>" and "\<bar>x\<bar> < 2 powi (expo x + 1)"
proof -
  have "2 powi expo x \<le> \<bar>x\<bar> \<and> \<bar>x\<bar> < 2 powi (expo x + 1)"
  proof (cases "1 \<le> \<bar>x\<bar>")
    case True
    define n where "n = \<lfloor>\<bar>x\<bar>\<rfloor>"
    from True have npos: "0 < n" by (simp add: n_def)
    have e: "expo x = bitlen n - 1" using True by (simp add: expo_def n_def)
    from npos have b1: "1 \<le> bitlen n" by (simp add: bitlen_alt_def)
    from bitlen_bounds [OF npos]
    have lo: "2 ^ nat (bitlen n - 1) \<le> n" and hi: "n < 2 ^ nat (bitlen n)" by simp_all
    have "(2::rat) powi (bitlen n - 1) = 2 ^ nat (bitlen n - 1)"
      using b1 by (simp add: power_int_def)
    also have "\<dots> = of_int (2 ^ nat (bitlen n - 1))" by simp
    also have "\<dots> \<le> of_int n" using lo by (simp only: of_int_le_iff)
    also have "\<dots> \<le> \<bar>x\<bar>" by (simp add: n_def)
    finally have A: "2 powi expo x \<le> \<bar>x\<bar>" by (simp add: e)
    from hi have "n + 1 \<le> 2 ^ nat (bitlen n)" by simp
    then have "(of_int (n + 1) :: rat) \<le> of_int (2 ^ nat (bitlen n))"
      by (simp only: of_int_le_iff)
    moreover have "\<bar>x\<bar> < of_int (n + 1)"
      using floor_correct [of "\<bar>x\<bar>"] by (simp add: n_def)
    moreover have "(2::rat) powi (bitlen n) = 2 ^ nat (bitlen n)"
      using b1 by (simp add: power_int_def)
    ultimately have "\<bar>x\<bar> < 2 powi (expo x + 1)" by (simp add: e)
    with A show ?thesis by simp
  next
    case False
    define y where "y = 1 / \<bar>x\<bar>"
    define m where "m = \<lceil>y\<rceil> - 1"
    from False assms have xlt: "0 < \<bar>x\<bar>" "\<bar>x\<bar> < 1" by simp_all
    then have y1: "1 < y" by (simp add: y_def)
    then have mpos: "0 < m" by (simp add: m_def less_ceiling_iff)
    have e: "expo x = - bitlen m" using False by (simp add: expo_def m_def y_def)
    from mpos have b1: "1 \<le> bitlen m" by (simp add: bitlen_alt_def)
    from bitlen_bounds [OF mpos]
    have lo: "2 ^ nat (bitlen m - 1) \<le> m" and hi: "m < 2 ^ nat (bitlen m)" by simp_all
    have xy: "\<bar>x\<bar> = 1 / y" using xlt by (simp add: y_def)
    have ypos: "0 < y" using y1 by simp
    have "y \<le> of_int (m + 1)" by (simp add: m_def)
    also have "\<dots> \<le> of_int (2 ^ nat (bitlen m))" using hi by (simp only: of_int_le_iff)
    finally have yle: "y \<le> 2 ^ nat (bitlen m)" by simp
    have "(2::rat) powi (- bitlen m) = 1 / 2 ^ nat (bitlen m)"
      using b1 by (simp add: power_int_def field_simps)
    also have "\<dots> \<le> 1 / y" using yle ypos by (simp add: frac_le)
    finally have A: "2 powi expo x \<le> \<bar>x\<bar>" by (simp add: e xy)
    have my: "(of_int m :: rat) < y"
      using ceiling_correct [of y] by (simp add: m_def)
    have "(2::rat) ^ nat (bitlen m - 1) = of_int (2 ^ nat (bitlen m - 1))" by simp
    also have "\<dots> \<le> of_int m" using lo by (simp only: of_int_le_iff)
    also note my
    finally have ylt: "2 ^ nat (bitlen m - 1) < y" .
    have "1 / y < 1 / 2 ^ nat (bitlen m - 1)"
      using ylt by (simp add: frac_less2)
    also have "\<dots> = (2::rat) powi (- bitlen m + 1)"
      using b1 by (simp add: power_int_def field_simps)
    finally have "\<bar>x\<bar> < 2 powi (expo x + 1)" by (simp add: e xy)
    with A show ?thesis by simp
  qed
  then show "2 powi expo x \<le> \<bar>x\<bar>" and "\<bar>x\<bar> < 2 powi (expo x + 1)" by simp_all
qed

lemma expo_mono:
  assumes "0 < x" "x \<le> y"
  shows "expo x \<le> expo y"
proof -
  from assms have "x \<noteq> 0" "y \<noteq> 0" by simp_all
  from expo_bounds(1) [OF \<open>x \<noteq> 0\<close>] expo_bounds(2) [OF \<open>y \<noteq> 0\<close>] assms
  have "(2::rat) powi expo x < 2 powi (expo y + 1)" by simp
  then have "expo x < expo y + 1"
    by (metis linorder_not_less one_le_numeral power_int_increasing)
  then show ?thesis by simp
qed

lemma quantum_mono: "0 < x \<Longrightarrow> x \<le> y \<Longrightarrow> quantum x \<le> quantum y"
  using expo_mono [of x y] by (simp add: quantum_def)

lemma pow2_pos: "(0::rat) < 2 powi k"
  by (simp add: zero_less_power_int)

lemma pow2_add: "(2::rat) powi (a + b) = 2 powi b * 2 powi a"
  by (simp add: power_int_add)

lemma round64_nonneg: "0 \<le> x \<Longrightarrow> 0 \<le> round64 x"
proof -
  assume "0 \<le> x"
  then have "of_int 0 \<le> x / 2 powi quantum x"
    using pow2_pos [of "quantum x"] by simp
  then have "0 \<le> rne (x / 2 powi quantum x)" by (rule rne_ge_int)
  then show ?thesis
    using pow2_pos [of "quantum x"] by (simp add: round64_def)
qed

lemma round64_below_binade:
  assumes "0 < x"
  shows "round64 x \<le> 2 powi (quantum x + 53)"
proof -
  let ?q = "quantum x"
  from assms have x0: "x \<noteq> 0" by simp
  have "expo x + 1 \<le> ?q + 53" by (simp add: quantum_def)
  then have "(2::rat) powi (expo x + 1) \<le> 2 powi (?q + 53)"
    by (simp add: power_int_increasing)
  with expo_bounds(2) [OF x0] assms have "x < 2 powi (?q + 53)" by simp
  also have "\<dots> = 2 powi 53 * 2 powi ?q"
    by (rule pow2_add)
  finally have "x / 2 powi ?q < 2 powi 53"
    using pow2_pos [of ?q] by (simp only: pos_divide_less_eq)
  moreover have p53: "(2::rat) powi 53 = of_int (2 ^ 53)" by simp
  ultimately have "x / 2 powi ?q \<le> of_int (2 ^ 53)" by (simp only: less_imp_le)
  then have "rne (x / 2 powi ?q) \<le> 2 ^ 53" by (rule rne_le_int)
  then have "(of_int (rne (x / 2 powi ?q)) :: rat) \<le> of_int (2 ^ 53)"
    by (simp only: of_int_le_iff)
  then have "(of_int (rne (x / 2 powi ?q)) :: rat) * 2 powi ?q \<le> of_int (2 ^ 53) * 2 powi ?q"
    using pow2_pos [of ?q] by (simp only: mult_right_mono less_imp_le)
  also have "\<dots> = 2 powi (?q + 53)"
    by (simp only: p53 [symmetric] pow2_add)
  finally show ?thesis using x0 by (simp add: round64_def)
qed

lemma round64_above_binade:
  assumes "0 < y" "quantum y = expo y - 52"
  shows "2 powi expo y \<le> round64 y"
proof -
  let ?q = "quantum y"
  from assms have y0: "y \<noteq> 0" by simp
  have "expo y = ?q + 52" using assms(2) by simp
  then have "(2::rat) powi expo y = 2 powi (?q + 52)" by (simp only:)
  also have "\<dots> = 2 powi 52 * 2 powi ?q"
    by (rule pow2_add)
  finally have split: "(2::rat) powi expo y = 2 powi 52 * 2 powi ?q" .
  with expo_bounds(1) [OF y0] assms(1) have "2 powi 52 * 2 powi ?q \<le> y" by simp
  then have "2 powi 52 \<le> y / 2 powi ?q"
    using pow2_pos [of ?q] by (simp only: pos_le_divide_eq)
  moreover have p52: "(2::rat) powi 52 = of_int (2 ^ 52)" by simp
  ultimately have "of_int (2 ^ 52) \<le> y / 2 powi ?q" by (simp only:)
  then have "2 ^ 52 \<le> rne (y / 2 powi ?q)" by (rule rne_ge_int)
  then have "(of_int (2 ^ 52) :: rat) \<le> of_int (rne (y / 2 powi ?q))"
    by (simp only: of_int_le_iff)
  then have "(of_int (2 ^ 52) :: rat) * 2 powi ?q \<le> of_int (rne (y / 2 powi ?q)) * 2 powi ?q"
    using pow2_pos [of ?q] by (simp only: mult_right_mono less_imp_le)
  then have "(2::rat) powi expo y \<le> of_int (rne (y / 2 powi ?q)) * 2 powi ?q"
    by (simp only: split p52)
  then show ?thesis using y0 by (simp add: round64_def)
qed

lemma round64_mono_pos:
  assumes "0 < x" "x \<le> y"
  shows "round64 x \<le> round64 y"
proof -
  from assms have x0: "x \<noteq> 0" and y0: "y \<noteq> 0" and ypos: "0 < y" by simp_all
  from quantum_mono [OF assms] have q: "quantum x \<le> quantum y" .
  show ?thesis
  proof (cases "quantum x = quantum y")
    case True
    let ?p = "(2::rat) powi quantum y"
    from assms(2) have "x / ?p \<le> y / ?p"
      using pow2_pos [of "quantum y"] by (simp add: divide_right_mono)
    then have "rne (x / ?p) \<le> rne (y / ?p)" by (rule rne_mono)
    then have "(of_int (rne (x / ?p)) :: rat) \<le> of_int (rne (y / ?p))"
      by (simp only: of_int_le_iff)
    then have "of_int (rne (x / ?p)) * ?p \<le> of_int (rne (y / ?p)) * ?p"
      using pow2_pos [of "quantum y"] by simp
    then show ?thesis using x0 y0 True by (simp add: round64_def)
  next
    case False
    with q have lt: "quantum x + 1 \<le> quantum y" by simp
    have "- 1074 \<le> quantum x" by (simp add: quantum_def)
    with lt have qy: "quantum y = expo y - 52" by (simp add: quantum_def max_def split: if_splits)
    have "round64 x \<le> 2 powi (quantum x + 53)" by (rule round64_below_binade [OF assms(1)])
    also have "\<dots> \<le> 2 powi expo y"
      using lt qy by (simp add: power_int_increasing)
    also have "\<dots> \<le> round64 y" by (rule round64_above_binade [OF ypos qy])
    finally show ?thesis .
  qed
qed

lemma round64_mono_nonneg: "0 \<le> x \<Longrightarrow> x \<le> y \<Longrightarrow> round64 x \<le> round64 y"
proof (cases "x = 0")
  case True
  assume "0 \<le> x" "x \<le> y"
  then have "0 \<le> round64 y" by (simp add: round64_nonneg)
  with True show ?thesis by (simp add: round64_def)
next
  case False
  assume "0 \<le> x" "x \<le> y"
  with False show ?thesis by (simp add: round64_mono_pos)
qed

lemma rne_minus: "rne (- r) = - rne r"
proof (cases "r = of_int \<lfloor>r\<rfloor>")
  case True
  then obtain n where "r = of_int n" ..
  then have "- r = of_int (- n)" by simp
  then have "rne (- r) = - n" by (simp only: rne_of_int)
  with \<open>r = of_int n\<close> show ?thesis by (simp add: rne_of_int)
next
  case False
  then have "r \<notin> \<int>" by (metis Ints_cases of_int_floor_cancel Ints_of_int floor_of_int)
  then have f: "\<lfloor>- r\<rfloor> = - \<lfloor>r\<rfloor> - 1"
    by (simp add: floor_minus ceiling_altdef of_int_floor_cancel False)
  show ?thesis
    unfolding rne_def Let_def f by (auto simp: field_simps)
qed

lemma expo_minus: "expo (- x) = expo x"
  by (simp add: expo_def)

lemma round64_minus: "round64 (- x) = - round64 x"
  by (simp add: round64_def quantum_def expo_minus rne_minus)

lemma round64_mono: "x \<le> y \<Longrightarrow> round64 x \<le> round64 y"
proof -
  assume xy: "x \<le> y"
  consider "0 \<le> x" | "x < 0" "0 \<le> y" | "x < 0" "y < 0" by linarith
  then show ?thesis
  proof cases
    case 1
    from 1 xy show ?thesis by (rule round64_mono_nonneg)
  next
    case 2
    then have "0 \<le> round64 (- x)" by (simp add: round64_nonneg)
    then have "round64 x \<le> 0" by (simp add: round64_minus)
    also have "0 \<le> round64 y" using 2 by (simp add: round64_nonneg)
    finally show ?thesis .
  next
    case 3
    with xy have "round64 (- y) \<le> round64 (- x)" by (simp add: round64_mono_nonneg)
    then show ?thesis by (simp add: round64_minus)
  qed
qed

subsection \<open>The samples of the uniform and the exponential family\<close>

lemma huge_big: "1024 < huge"
proof -
  have "(2::rat) ^ 10 < 2 ^ 1024" by (rule power_strict_increasing) simp_all
  moreover have "(2::rat) ^ 10 = 1024" by simp
  ultimately show ?thesis by (simp only: huge_def)
qed

lemma overflow_small: "\<bar>y\<bar> \<le> 1024 \<Longrightarrow> overflow y = Fin y"
  using huge_big by (auto simp: overflow_def)

lemma overflow_nonneg: "0 \<le> y \<Longrightarrow> fle (Fin 0) (overflow y)"
  using huge_big by (simp add: overflow_def)

lemma round64_fix:
  "round64 0 = 0" "round64 50 = 50" "round64 75 = 75" "round64 100 = 100" "round64 125 = 125"
  by code_simp+

lemma uniform_range:
  assumes "0 \<le> u" "u < 1"
  shows "\<exists>y. loc_scale 75 50 u = Fin y \<and> 75 \<le> y \<and> y \<le> 125"
proof -
  let ?a = "round64 (u * 50)"
  from assms have "0 \<le> u * 50" "u * 50 \<le> 50" by simp_all
  then have "round64 0 \<le> ?a" "?a \<le> round64 50" by (simp_all add: round64_mono)
  then have a: "0 \<le> ?a" "?a \<le> 50" by (simp_all add: round64_fix)
  then have m: "fmul u 50 = Fin ?a" by (simp add: fmul_def overflow_small)
  let ?b = "round64 (?a + 75)"
  from a have "75 \<le> ?a + 75" "?a + 75 \<le> 125" by simp_all
  then have "round64 75 \<le> ?b" "?b \<le> round64 125" by (simp_all add: round64_mono)
  then have b: "75 \<le> ?b" "?b \<le> 125" by (simp_all add: round64_fix)
  then have "fadd (Fin ?a) 75 = Fin ?b" by (simp add: overflow_small)
  with m b show ?thesis by (simp add: loc_scale_def)
qed

lemma expon_nonneg:
  assumes "0 \<le> z"
  shows "fle (Fin 0) (loc_scale 0 100 z)"
proof -
  let ?a = "round64 (z * 100)"
  from assms have a: "0 \<le> ?a" by (simp add: round64_nonneg)
  show ?thesis
  proof (cases "fmul z 100")
    case (Fin y)
    with a have y: "y = ?a" "0 \<le> y" by (auto simp: fmul_def overflow_def split: if_splits)
    then have "0 \<le> round64 (y + 0)" by (simp add: round64_nonneg)
    then show ?thesis using Fin by (simp add: loc_scale_def overflow_nonneg)
  next
    case PInf
    then show ?thesis by (simp add: loc_scale_def)
  next
    case NInf
    with a huge_big show ?thesis by (auto simp: fmul_def overflow_def split: if_splits)
  qed
qed

lemma top_variate: "round64 ((1 - 1 / 2 ^ 53) * 50) = 50 - 1 / 2 ^ 47"
  "round64 (50 - 1 / 2 ^ 47 + 75) = 125"
  by code_simp+

lemma loc_scale_top: "loc_scale 75 50 (1 - 1 / 2 ^ 53) = Fin 125"
proof -
  have "fmul (1 - 1 / 2 ^ 53) 50 = Fin (50 - 1 / 2 ^ 47)"
    unfolding fmul_def top_variate(1) by (rule overflow_small) simp
  then show ?thesis
    unfolding loc_scale_def by (simp only: fadd.simps top_variate(2)) (simp add: overflow_small)
qed

lemma loc_scale_zero:
  "loc_scale 100 10 0 = Fin 100" "loc_scale 75 50 0 = Fin 75" "loc_scale 0 100 0 = Fin 0"
  by (simp_all add: loc_scale_def fmul_def overflow_small round64_fix)

subsection \<open>The loop and the block\<close>

lemma writes_0: "writes p i 0 = []"
  by (simp add: writes_def)

lemma writes_Suc: "writes p i (Suc m) = Io (Write p i) # writes p (Suc i) m"
  by (simp add: writes_def upt_conv_Cons)

lemma contents_Nil: "contents fmt [] = []"
  by (simp add: contents_def)

lemma contents_Cons: "contents fmt (v # vs) = format_line fmt v @ contents fmt vs"
  by (simp add: contents_def)

lemma write_each_handles: "handles (snd (write_each ok fmt p i vs s)) = handles s"
  by (induction vs arbitrary: i s) (simp_all add: Let_def emit_def f_write_def)

lemma write_each_cursor: "cursor (snd (write_each ok fmt p i vs s)) = cursor s"
  by (induction vs arbitrary: i s) (simp_all add: Let_def emit_def f_write_def)

lemma write_each_frame: "q \<noteq> p \<Longrightarrow> files (snd (write_each ok fmt p i vs s)) q = files s q"
  by (induction vs arbitrary: i s) (simp_all add: Let_def emit_def f_write_def)

text \<open>The loop, by the number \<open>m\<close> of writes that succeeded.\<close>

lemma write_each_run:
  assumes "files s p = Some old"
  shows "\<exists>m\<le>length vs. (\<forall>k<m. ok (Write p (i + k))) \<and>
      files (snd (write_each ok fmt p i vs s)) p = Some (old @ contents fmt (take m vs)) \<and>
      ((m = length vs \<and> fst (write_each ok fmt p i vs s) = Inr () \<and>
          trace (snd (write_each ok fmt p i vs s)) = trace s @ writes p i m) \<or>
       (m < length vs \<and> \<not> ok (Write p (i + m)) \<and>
          fst (write_each ok fmt p i vs s) = Inl (OSError (Write p (i + m))) \<and>
          trace (snd (write_each ok fmt p i vs s)) = trace s @ writes p i (Suc m)))"
  using assms
proof (induction vs arbitrary: i s old)
  case Nil
  then show ?case by (simp add: contents_Nil writes_0)
next
  case (Cons v vs)
  show ?case
  proof (cases "ok (Write p i)")
    case False
    then have "write_each ok fmt p i (v # vs) s = (Inl (OSError (Write p i)), emit (Io (Write p i)) s)"
      by (simp add: Let_def)
    with False Cons.prems show ?thesis
      by (intro exI [of _ 0]) (simp add: contents_Nil writes_Suc writes_0 emit_def)
  next
    case True
    let ?s = "f_write p (format_line fmt v) (emit (Io (Write p i)) s)"
    have eq: "write_each ok fmt p i (v # vs) s = write_each ok fmt p (Suc i) vs ?s"
      using True by (simp add: Let_def)
    have f: "files ?s p = Some (old @ format_line fmt v)"
      using Cons.prems by (simp add: f_write_def emit_def)
    have t: "trace ?s = trace s @ [Io (Write p i)]"
      by (simp add: f_write_def emit_def)
    from Cons.IH [OF f, of "Suc i"] obtain m where m: "m \<le> length vs"
      "\<forall>k<m. ok (Write p (Suc i + k))"
      "files (snd (write_each ok fmt p (Suc i) vs ?s)) p = Some ((old @ format_line fmt v) @ contents fmt (take m vs))"
      "(m = length vs \<and> fst (write_each ok fmt p (Suc i) vs ?s) = Inr () \<and>
          trace (snd (write_each ok fmt p (Suc i) vs ?s)) = trace ?s @ writes p (Suc i) m) \<or>
       (m < length vs \<and> \<not> ok (Write p (Suc i + m)) \<and>
          fst (write_each ok fmt p (Suc i) vs ?s) = Inl (OSError (Write p (Suc i + m))) \<and>
          trace (snd (write_each ok fmt p (Suc i) vs ?s)) = trace ?s @ writes p (Suc i) (Suc m))"
      by blast
    have all: "\<forall>k<Suc m. ok (Write p (i + k))"
    proof (intro allI impI)
      fix k assume "k < Suc m"
      then show "ok (Write p (i + k))"
        using True m(2) by (cases k) simp_all
    qed
    show ?thesis
      using m(1) m(3) m(4) all
      by (intro exI [of _ "Suc m"]) (simp add: True Let_def t contents_Cons writes_Suc)
  qed
qed

lemma with_open_fail:
  "\<not> ok (Open p) \<Longrightarrow>
     with_open ok fmt g p d loc scale sz s = (Inl (OSError (Open p)), emit (Io (Open p)) s)"
  by (simp add: with_open_def Let_def)

lemma with_open_opened:
  assumes "ok (Open p)"
  shows "with_open ok fmt g p d loc scale sz s =
    (let w = write_each ok fmt p 0 (variates g d loc scale (cursor s) sz)
               (emit (Draw d sz) (open_w p (emit (Io (Open p)) s)\<lparr>cursor := cursor s + sz\<rparr>))
     in (if ok (Close p) then fst w else Inl (OSError (Close p)),
         close_f p (emit (Io (Close p)) (snd w))))"
  using assms
  by (simp add: with_open_def Let_def rvs_def open_w_def emit_def split: prod.splits)

lemma with_open_handles:
  "handles (snd (with_open ok fmt g p d loc scale sz s)) =
     (if ok (Open p) then handles s - {p} else handles s)"
  by (simp add: with_open_fail with_open_opened Let_def close_f_def emit_def
      write_each_handles open_w_def)

lemma with_open_cursor:
  "cursor (snd (with_open ok fmt g p d loc scale sz s)) =
     (if ok (Open p) then cursor s + sz else cursor s)"
  by (simp add: with_open_fail with_open_opened Let_def close_f_def emit_def
      write_each_cursor open_w_def)

lemma with_open_frame:
  "q \<noteq> p \<Longrightarrow> files (snd (with_open ok fmt g p d loc scale sz s)) q = files s q"
  by (cases "ok (Open p)")
    (simp_all add: with_open_fail with_open_opened Let_def close_f_def emit_def
      write_each_frame open_w_def)

lemma with_open_run:
  assumes "ok (Open p)"
  shows "\<exists>m\<le>sz. (\<forall>k<m. ok (Write p k)) \<and>
      files (snd (with_open ok fmt g p d loc scale sz s)) p =
        Some (contents fmt (take m (variates g d loc scale (cursor s) sz))) \<and>
      ((m = sz \<and>
        fst (with_open ok fmt g p d loc scale sz s) =
          (if ok (Close p) then Inr () else Inl (OSError (Close p))) \<and>
        trace (snd (with_open ok fmt g p d loc scale sz s)) = trace s @ block p d sz) \<or>
       (m < sz \<and> \<not> ok (Write p m) \<and>
        fst (with_open ok fmt g p d loc scale sz s) =
          (if ok (Close p) then Inl (OSError (Write p m)) else Inl (OSError (Close p))) \<and>
        trace (snd (with_open ok fmt g p d loc scale sz s)) =
          trace s @ Io (Open p) # Draw d sz # writes p 0 (Suc m) @ [Io (Close p)]))"
proof -
  let ?vals = "variates g d loc scale (cursor s) sz"
  let ?s2 = "emit (Draw d sz) (open_w p (emit (Io (Open p)) s)\<lparr>cursor := cursor s + sz\<rparr>)"
  let ?w = "write_each ok fmt p 0 ?vals ?s2"
  have len: "length ?vals = sz" by (simp add: variates_def)
  have f: "files ?s2 p = Some []" by (simp add: emit_def open_w_def)
  have t: "trace ?s2 = trace s @ [Io (Open p), Draw d sz]" by (simp add: emit_def open_w_def)
  have r: "fst (with_open ok fmt g p d loc scale sz s) =
      (if ok (Close p) then fst ?w else Inl (OSError (Close p)))"
    and tr: "trace (snd (with_open ok fmt g p d loc scale sz s)) = trace (snd ?w) @ [Io (Close p)]"
    and fl: "files (snd (with_open ok fmt g p d loc scale sz s)) = files (snd ?w)"
    using assms by (simp_all add: with_open_opened Let_def close_f_def emit_def)
  from write_each_run [OF f, of ?vals ok 0 fmt] obtain m where m: "m \<le> length ?vals"
    "\<forall>k<m. ok (Write p k)"
    "files (snd ?w) p = Some (contents fmt (take m ?vals))"
    "(m = length ?vals \<and> fst ?w = Inr () \<and> trace (snd ?w) = trace ?s2 @ writes p 0 m) \<or>
     (m < length ?vals \<and> \<not> ok (Write p m) \<and> fst ?w = Inl (OSError (Write p m)) \<and>
        trace (snd ?w) = trace ?s2 @ writes p 0 (Suc m))"
    by auto
  from m(4) show ?thesis
  proof
    assume a: "m = length ?vals \<and> fst ?w = Inr () \<and> trace (snd ?w) = trace ?s2 @ writes p 0 m"
    show ?thesis
      using a m(2) m(3) len
      by (intro exI [of _ m]) (simp add: r tr fl t block_def)
  next
    assume a: "m < length ?vals \<and> \<not> ok (Write p m) \<and> fst ?w = Inl (OSError (Write p m)) \<and>
        trace (snd ?w) = trace ?s2 @ writes p 0 (Suc m)"
    show ?thesis
      using a m(2) m(3) len
      by (intro exI [of _ m]) (simp add: r tr fl t)
  qed
qed

text \<open>A block succeeds exactly when each of its operations does.\<close>

lemma with_open_Inr_iff:
  "fst (with_open ok fmt g p d loc scale sz s) = Inr () \<longleftrightarrow>
     ok (Open p) \<and> (\<forall>k<sz. ok (Write p k)) \<and> ok (Close p)"
proof (cases "ok (Open p)")
  case False
  then show ?thesis by (simp add: with_open_fail)
next
  case True
  from with_open_run [of ok p sz fmt g d loc scale s] True show ?thesis
    by (auto split: if_splits)
qed

lemma with_open_success:
  assumes "fst (with_open ok fmt g p d loc scale sz s) = Inr ()"
  shows "files (snd (with_open ok fmt g p d loc scale sz s)) p =
           Some (contents fmt (variates g d loc scale (cursor s) sz))"
    and "trace (snd (with_open ok fmt g p d loc scale sz s)) = trace s @ block p d sz"
    and "cursor (snd (with_open ok fmt g p d loc scale sz s)) = cursor s + sz"
    and "handles (snd (with_open ok fmt g p d loc scale sz s)) = handles s - {p}"
proof -
  from assms have op: "ok (Open p)" by (simp add: with_open_Inr_iff)
  from with_open_run [of ok p sz fmt g d loc scale s] op assms
  show "files (snd (with_open ok fmt g p d loc scale sz s)) p =
           Some (contents fmt (variates g d loc scale (cursor s) sz))"
    and "trace (snd (with_open ok fmt g p d loc scale sz s)) = trace s @ block p d sz"
    by (auto simp: variates_def split: if_splits)
  show "cursor (snd (with_open ok fmt g p d loc scale sz s)) = cursor s + sz"
    and "handles (snd (with_open ok fmt g p d loc scale sz s)) = handles s - {p}"
    using op by (simp_all add: with_open_cursor with_open_handles)
qed

subsection \<open>The lines of a file\<close>

lemma split_lines_line:
  "newline \<notin> set l \<Longrightarrow> split_lines cur (l @ newline # rest) = (cur @ l) # split_lines [] rest"
  by (induction l arbitrary: cur) auto

lemma lines_of_contents:
  "\<forall>v\<in>set vs. newline \<notin> set (fmt v) \<Longrightarrow> lines_of (contents fmt vs) = map fmt vs"
proof (induction vs)
  case Nil
  then show ?case by (simp add: lines_of_def contents_Nil)
next
  case (Cons v vs)
  then have "newline \<notin> set (fmt v)" by simp
  from split_lines_line [OF this, of "[]" "contents fmt vs"] Cons show ?case
    by (simp add: lines_of_def contents_Cons format_line_def)
qed

subsection \<open>A run\<close>

lemma gensamples_unfold:
  "gensamples ok fmt g s =
     (let w1 = with_open ok fmt g ''data/normal.txt'' Norm 100 10 100 s in
      case fst w1 of Inl e \<Rightarrow> w1
      | Inr u \<Rightarrow>
         (let w2 = with_open ok fmt g ''data/uniform.txt'' Uniform 75 50 100 (snd w1) in
          case fst w2 of Inl e \<Rightarrow> w2
          | Inr u \<Rightarrow> with_open ok fmt g ''data/exponential.txt'' Expon 0 100 100 (snd w2)))"
  by (simp add: gensamples_def Let_def split: prod.splits sum.splits)

text \<open>The three ways a run can go.\<close>

lemma gensamples_cases:
  obtains
    (first) e where
      "fst (with_open ok fmt g ''data/normal.txt'' Norm 100 10 100 s) = Inl e"
      "gensamples ok fmt g s = with_open ok fmt g ''data/normal.txt'' Norm 100 10 100 s"
  | (second) e where
      "fst (with_open ok fmt g ''data/normal.txt'' Norm 100 10 100 s) = Inr ()"
      "fst (with_open ok fmt g ''data/uniform.txt'' Uniform 75 50 100
         (snd (with_open ok fmt g ''data/normal.txt'' Norm 100 10 100 s))) = Inl e"
      "gensamples ok fmt g s = with_open ok fmt g ''data/uniform.txt'' Uniform 75 50 100
         (snd (with_open ok fmt g ''data/normal.txt'' Norm 100 10 100 s))"
  | (third)
      "fst (with_open ok fmt g ''data/normal.txt'' Norm 100 10 100 s) = Inr ()"
      "fst (with_open ok fmt g ''data/uniform.txt'' Uniform 75 50 100
         (snd (with_open ok fmt g ''data/normal.txt'' Norm 100 10 100 s))) = Inr ()"
      "gensamples ok fmt g s = with_open ok fmt g ''data/exponential.txt'' Expon 0 100 100
         (snd (with_open ok fmt g ''data/uniform.txt'' Uniform 75 50 100
           (snd (with_open ok fmt g ''data/normal.txt'' Norm 100 10 100 s))))"
  by (cases "fst (with_open ok fmt g ''data/normal.txt'' Norm 100 10 100 s)";
      cases "fst (with_open ok fmt g ''data/uniform.txt'' Uniform 75 50 100
         (snd (with_open ok fmt g ''data/normal.txt'' Norm 100 10 100 s)))")
    (simp_all add: gensamples_unfold Let_def)

lemma gensamples_success:
  assumes "fst (gensamples ok fmt g s) = Inr ()"
  shows "files (snd (gensamples ok fmt g s)) ''data/normal.txt'' =
           Some (contents fmt (variates g Norm 100 10 (cursor s) 100))"
    and "files (snd (gensamples ok fmt g s)) ''data/uniform.txt'' =
           Some (contents fmt (variates g Uniform 75 50 (cursor s + 100) 100))"
    and "files (snd (gensamples ok fmt g s)) ''data/exponential.txt'' =
           Some (contents fmt (variates g Expon 0 100 (cursor s + 200) 100))"
    and "trace (snd (gensamples ok fmt g s)) = trace s @ schedule"
    and "cursor (snd (gensamples ok fmt g s)) = cursor s + 300"
proof -
  let ?w1 = "with_open ok fmt g ''data/normal.txt'' Norm 100 10 100 s"
  let ?w2 = "with_open ok fmt g ''data/uniform.txt'' Uniform 75 50 100 (snd ?w1)"
  let ?w3 = "with_open ok fmt g ''data/exponential.txt'' Expon 0 100 100 (snd ?w2)"
  from assms have r: "fst ?w1 = Inr ()" "fst ?w2 = Inr ()" "fst ?w3 = Inr ()"
    and eq: "gensamples ok fmt g s = ?w3"
    by (cases rule: gensamples_cases [of ok fmt g s]; simp)+
  note s1 = with_open_success [OF r(1)]
  note s2 = with_open_success [OF r(2)]
  note s3 = with_open_success [OF r(3)]
  show "files (snd (gensamples ok fmt g s)) ''data/normal.txt'' =
           Some (contents fmt (variates g Norm 100 10 (cursor s) 100))"
    by (simp add: eq with_open_frame s1(1))
  show "files (snd (gensamples ok fmt g s)) ''data/uniform.txt'' =
           Some (contents fmt (variates g Uniform 75 50 (cursor s + 100) 100))"
    by (simp add: eq with_open_frame s2(1) s1(3))
  show "files (snd (gensamples ok fmt g s)) ''data/exponential.txt'' =
           Some (contents fmt (variates g Expon 0 100 (cursor s + 200) 100))"
    by (simp add: eq s3(1) s2(3) s1(3) add.commute)
  show "trace (snd (gensamples ok fmt g s)) = trace s @ schedule"
    by (simp add: eq s3(2) s2(2) s1(2) schedule_def)
  show "cursor (snd (gensamples ok fmt g s)) = cursor s + 300"
    by (simp add: eq s3(3) s2(3) s1(3))
qed

lemma gensamples_frame:
  "q \<notin> outputs \<Longrightarrow> files (snd (gensamples ok fmt g s)) q = files s q"
  by (cases rule: gensamples_cases [of ok fmt g s]) (simp_all add: with_open_frame outputs_def)

lemma gensamples_Inr_iff:
  "fst (gensamples ok fmt g s) = Inr () \<longleftrightarrow>
     (\<forall>p\<in>outputs. ok (Open p) \<and> (\<forall>k<100. ok (Write p k)) \<and> ok (Close p))"
proof (cases rule: gensamples_cases [of ok fmt g s])
  case (first e)
  with with_open_Inr_iff [of ok fmt g "''data/normal.txt''" Norm 100 10 100 s]
  show ?thesis by (auto simp: outputs_def)
next
  case (second e)
  let ?s1 = "snd (with_open ok fmt g ''data/normal.txt'' Norm 100 10 100 s)"
  from second with_open_Inr_iff [of ok fmt g "''data/uniform.txt''" Uniform 75 50 100 ?s1]
  show ?thesis by (auto simp: outputs_def)
next
  case third
  let ?s1 = "snd (with_open ok fmt g ''data/normal.txt'' Norm 100 10 100 s)"
  let ?s2 = "snd (with_open ok fmt g ''data/uniform.txt'' Uniform 75 50 100 ?s1)"
  from third with_open_Inr_iff [of ok fmt g "''data/normal.txt''" Norm 100 10 100 s]
    with_open_Inr_iff [of ok fmt g "''data/uniform.txt''" Uniform 75 50 100 ?s1]
    with_open_Inr_iff [of ok fmt g "''data/exponential.txt''" Expon 0 100 100 ?s2]
  show ?thesis by (auto simp: outputs_def)
qed

subsection \<open>The conversion \<open>repr_exact\<close>\<close>

declare digits.simps [simp del]

lemma digit_in: "digit d \<in> set ''0123456789''"
  unfolding digit_def by (rule nth_mem) simp

lemma digit_not_newline: "digit d \<noteq> newline" "newline \<noteq> digit d"
  using digit_in [of d] by auto

lemma digits_no_newline: "newline \<notin> set (digits n)"
proof (induction n rule: digits.induct)
  case (1 n)
  then show ?case
    by (subst digits.simps) (simp add: digit_not_newline)
qed

lemma frac_digits_no_newline: "newline \<notin> set (frac_digits k r)"
  by (induction k arbitrary: r) (simp_all add: digit_not_newline)

lemma repr_exact_no_newline: "newline \<notin> set (repr_exact v)"
  by (cases v) (simp_all add: repr_exact_def digits_no_newline frac_digits_no_newline)

lemma repr_exact_values:
  "repr_exact (Fin 125) = ''125.0''" "repr_exact (Fin 100) = ''100.0''"
  "repr_exact (Fin 75) = ''75.0''" "repr_exact (Fin 0) = ''0.0''"
  by (simp_all add: repr_exact_def digits.simps digit_def)

subsection \<open>Successful runs\<close>

lemma run_all_ok:
  "gensamples (\<lambda>op. True) fmt g s = (Inr (), snd (gensamples (\<lambda>op. True) fmt g s))"
proof -
  have "fst (gensamples (\<lambda>op. True) fmt g s) = Inr ()" by (simp add: gensamples_Inr_iff)
  then show ?thesis by (metis prod.collapse)
qed

lemma run_success:
  assumes "gensamples ok fmt g (start fs) = (Inr (), s')"
  shows "files s' ''data/normal.txt'' = Some (contents fmt (normal_samples g))"
    and "files s' ''data/uniform.txt'' = Some (contents fmt (uniform_samples g))"
    and "files s' ''data/exponential.txt'' = Some (contents fmt (expon_samples g))"
    and "trace s' = schedule"
    and "cursor s' = 300"
proof -
  from assms have r: "fst (gensamples ok fmt g (start fs)) = Inr ()"
    and s: "snd (gensamples ok fmt g (start fs)) = s'" by simp_all
  have c: "cursor (start fs) = 0" "trace (start fs) = []" by (simp_all add: start_def)
  from gensamples_success [OF r] show
    "files s' ''data/normal.txt'' = Some (contents fmt (normal_samples g))"
    "files s' ''data/uniform.txt'' = Some (contents fmt (uniform_samples g))"
    "files s' ''data/exponential.txt'' = Some (contents fmt (expon_samples g))"
    "trace s' = schedule" "cursor s' = 300"
    by (simp_all add: s c normal_samples_def uniform_samples_def expon_samples_def)
qed

lemma variates_const:
  "variates (\<lambda>d i. z) d loc scale c sz = replicate sz (loc_scale loc scale z)"
  by (simp add: variates_def map_replicate_const)

lemma contents_replicate:
  "contents fmt (replicate n v) = concat (replicate n (fmt v @ [newline]))"
  by (simp add: contents_def format_line_def)



lemma variates_mem:
  "v \<in> set (variates g d loc scale c sz) \<longleftrightarrow>
     (\<exists>i. c \<le> i \<and> i < c + sz \<and> v = loc_scale loc scale (g d i))"
  by (auto simp: variates_def)

lemma uniform_samples_range:
  assumes "\<forall>i\<in>{100 ..< 200}. 0 \<le> g Uniform i \<and> g Uniform i < 1"
  shows "\<forall>v\<in>set (uniform_samples g). fle (Fin 75) v \<and> fle v (Fin 125)"
proof
  fix v assume "v \<in> set (uniform_samples g)"
  then obtain i where i: "i \<in> {100 ..< 200}" and v: "v = loc_scale 75 50 (g Uniform i)"
    unfolding uniform_samples_def variates_mem by auto
  from assms i have "0 \<le> g Uniform i" "g Uniform i < 1" by simp_all
  from uniform_range [OF this] v show "fle (Fin 75) v \<and> fle v (Fin 125)" by auto
qed

text \<open>
  C6, as amended: with uniform variates in \<open>[0, 1)\<close>, every value written to
  \<^verbatim>\<open>data/uniform.txt\<close> lies in the closed interval from 75.0 to 125.0.
\<close>

theorem uniform_values_in_closed_range:
  assumes "gensamples ok fmt g (start fs) = (Inr (), s')"
    and "\<forall>i\<in>{100 ..< 200}. 0 \<le> g Uniform i \<and> g Uniform i < 1"
  shows "files s' ''data/uniform.txt'' = Some (contents fmt (uniform_samples g)) \<and>
         (\<forall>v\<in>set (uniform_samples g). fle (Fin 75) v \<and> fle v (Fin 125))"
  using run_success(2) [OF assms(1)] uniform_samples_range [of g] assms(2) by simp

lemma loc_scale_half: "loc_scale 75 50 (1 / 2) = Fin 100"
proof -
  have r: "round64 25 = 25" by code_simp
  show ?thesis
    by (simp add: loc_scale_def fmul_def r overflow_small round64_fix)
qed

theorem uniform_values_in_closed_range_witness:
  "gensamples (\<lambda>op. True) repr_exact (\<lambda>d i. 1 / 2) (start Map.empty) =
     (Inr (), snd (gensamples (\<lambda>op. True) repr_exact (\<lambda>d i. 1 / 2) (start Map.empty))) \<and>
   list_all (\<lambda>i. (0::rat) \<le> 1 / 2 \<and> (1 / 2 :: rat) < 1) [100 ..< 200] \<and>
   files (snd (gensamples (\<lambda>op. True) repr_exact (\<lambda>d i. 1 / 2) (start Map.empty)))
     ''data/uniform.txt'' = Some (concat (replicate 100 (''100.0'' @ [newline]))) \<and>
   uniform_samples (\<lambda>d i. 1 / 2) = replicate 100 (Fin 100) \<and>
   fle (Fin 75) (Fin 100) \<and> fle (Fin 100) (Fin 125)"
proof -
  let ?g = "\<lambda>(d::dist) (i::nat). (1 / 2 :: rat)"
  have h: "\<forall>i\<in>{100 ..< 200}. 0 \<le> ?g Uniform i \<and> ?g Uniform i < 1" by simp
  have u: "uniform_samples ?g = replicate 100 (Fin 100)"
    by (simp only: uniform_samples_def variates_const loc_scale_half)
  have m: "Fin 100 \<in> set (uniform_samples ?g)" by (simp add: u)
  note t = uniform_values_in_closed_range [OF run_all_ok, of ?g repr_exact Map.empty, OF h]
  from t [THEN conjunct1]
  have f: "files (snd (gensamples (\<lambda>op. True) repr_exact ?g (start Map.empty)))
      ''data/uniform.txt'' = Some (concat (replicate 100 (''100.0'' @ [newline])))"
    by (simp only: u contents_replicate repr_exact_values)
  from t [THEN conjunct2] m
  have b: "fle (Fin 75) (Fin 100) \<and> fle (Fin 100) (Fin 125)" by (rule bspec)
  have l: "list_all (\<lambda>i. (0::rat) \<le> 1 / 2 \<and> (1 / 2 :: rat) < 1) [100 ..< 200]"
    by (simp add: list_all_iff)
  from run_all_ok [of repr_exact ?g "start Map.empty"] l f u b show ?thesis
    by (intro conjI) simp_all
qed

text \<open>
  The half-open interval of C6 fails at \<open>1 - 2\<^sup>-\<^sup>5\<^sup>3\<close>, the largest binary64 number
  below 1 (rounding leaves it as it is): the product with 50 rounds to
  \<open>50 - 2\<^sup>-\<^sup>4\<^sup>7\<close>, and the sum with 75 is a tie that rounds to 125.0, which is
  what the file then holds on each line.
\<close>

theorem uniform_half_open_counterexample:
  "(0::rat) \<le> 1 - 1 / 2 ^ 53 \<and> (1 - 1 / 2 ^ 53 :: rat) < 1 \<and>
   round64 (1 - 1 / 2 ^ 53) = 1 - 1 / 2 ^ 53 \<and>
   fst (gensamples (\<lambda>op. True) repr_exact (\<lambda>d i. 1 - 1 / 2 ^ 53) (start Map.empty)) = Inr () \<and>
   files (snd (gensamples (\<lambda>op. True) repr_exact (\<lambda>d i. 1 - 1 / 2 ^ 53) (start Map.empty)))
     ''data/uniform.txt'' = Some (concat (replicate 100 (''125.0'' @ [newline]))) \<and>
   uniform_samples (\<lambda>d i. 1 - 1 / 2 ^ 53) = replicate 100 (Fin 125) \<and>
   \<not> flt (Fin 125) (Fin 125)"
proof -
  let ?g = "\<lambda>(d::dist) (i::nat). (1 - 1 / 2 ^ 53 :: rat)"
  have u: "uniform_samples ?g = replicate 100 (Fin 125)"
    by (simp only: uniform_samples_def variates_const loc_scale_top)
  have f: "files (snd (gensamples (\<lambda>op. True) repr_exact ?g (start Map.empty)))
      ''data/uniform.txt'' = Some (concat (replicate 100 (''125.0'' @ [newline])))"
    using run_success(2) [OF run_all_ok, of repr_exact ?g Map.empty]
    by (simp only: u contents_replicate repr_exact_values)
  have r: "fst (gensamples (\<lambda>op. True) repr_exact ?g (start Map.empty)) = Inr ()"
    by (simp add: gensamples_Inr_iff)
  have b: "(0::rat) \<le> 1 - 1 / 2 ^ 53" "(1 - 1 / 2 ^ 53 :: rat) < 1" by simp_all
  have x: "round64 (1 - 1 / 2 ^ 53) = 1 - 1 / 2 ^ 53" by code_simp
  have n: "\<not> flt (Fin 125) (Fin 125)" by (simp add: flt_def)
  from b x r f u n show ?thesis by (intro conjI)
qed

lemma expon_samples_nonneg:
  assumes "\<forall>i\<in>{200 ..< 300}. 0 \<le> g Expon i"
  shows "\<forall>v\<in>set (expon_samples g). fle (Fin 0) v"
proof
  fix v assume "v \<in> set (expon_samples g)"
  then obtain i where i: "i \<in> {200 ..< 300}" and v: "v = loc_scale 0 100 (g Expon i)"
    unfolding expon_samples_def variates_mem by auto
  from assms i have "0 \<le> g Expon i" by simp
  from expon_nonneg [OF this] v show "fle (Fin 0) v" by simp
qed

text \<open>
  C7: with non-negative exponential variates, every value written to
  \<^verbatim>\<open>data/exponential.txt\<close> is non-negative.
\<close>

theorem exponential_values_nonnegative:
  assumes "gensamples ok fmt g (start fs) = (Inr (), s')"
    and "\<forall>i\<in>{200 ..< 300}. 0 \<le> g Expon i"
  shows "files s' ''data/exponential.txt'' = Some (contents fmt (expon_samples g)) \<and>
         (\<forall>v\<in>set (expon_samples g). fle (Fin 0) v)"
  using run_success(3) [OF assms(1)] expon_samples_nonneg [of g] assms(2) by simp

lemma loc_scale_one: "loc_scale 0 100 1 = Fin 100"
  by (simp add: loc_scale_def fmul_def overflow_small round64_fix)

theorem exponential_values_nonnegative_witness:
  "gensamples (\<lambda>op. True) repr_exact (\<lambda>d i. 1) (start Map.empty) =
     (Inr (), snd (gensamples (\<lambda>op. True) repr_exact (\<lambda>d i. 1) (start Map.empty))) \<and>
   list_all (\<lambda>i. (0::rat) \<le> 1) [200 ..< 300] \<and>
   files (snd (gensamples (\<lambda>op. True) repr_exact (\<lambda>d i. 1) (start Map.empty)))
     ''data/exponential.txt'' = Some (concat (replicate 100 (''100.0'' @ [newline]))) \<and>
   expon_samples (\<lambda>d i. 1) = replicate 100 (Fin 100) \<and>
   fle (Fin 0) (Fin 100)"
proof -
  let ?g = "\<lambda>(d::dist) (i::nat). (1 :: rat)"
  have h: "\<forall>i\<in>{200 ..< 300}. 0 \<le> ?g Expon i" by simp
  have u: "expon_samples ?g = replicate 100 (Fin 100)"
    by (simp only: expon_samples_def variates_const loc_scale_one)
  have m: "Fin 100 \<in> set (expon_samples ?g)" by (simp add: u)
  note t = exponential_values_nonnegative [OF run_all_ok, of ?g repr_exact Map.empty, OF h]
  from t [THEN conjunct1]
  have f: "files (snd (gensamples (\<lambda>op. True) repr_exact ?g (start Map.empty)))
      ''data/exponential.txt'' = Some (concat (replicate 100 (''100.0'' @ [newline])))"
    by (simp only: u contents_replicate repr_exact_values)
  from t [THEN conjunct2] m
  have b: "fle (Fin 0) (Fin 100)" by (rule bspec)
  have l: "list_all (\<lambda>i. (0::rat) \<le> 1) [200 ..< 300]"
    by (simp add: list_all_iff)
  from run_all_ok [of repr_exact ?g "start Map.empty"] l f u b show ?thesis
    by (intro conjI) simp_all
qed

lemma length_samples:
  "length (normal_samples g) = 100" "length (uniform_samples g) = 100"
  "length (expon_samples g) = 100"
  by (simp_all add: normal_samples_def uniform_samples_def expon_samples_def variates_def)

lemma run_frame:
  assumes "gensamples ok fmt g (start fs) = (r, s')" "q \<notin> outputs"
  shows "files s' q = fs q"
  using gensamples_frame [OF assms(2), of ok fmt g "start fs"] assms(1)
  by (simp add: start_def)

lemma run_outputs:
  assumes "gensamples ok fmt g (start fs) = (Inr (), s')" "p \<in> outputs"
  shows "\<exists>vs. length vs = 100 \<and> files s' p = Some (contents fmt vs)"
  using run_success(1-3) [OF assms(1)] assms(2) length_samples [of g]
  by (auto simp: outputs_def)

text \<open>
  C1: a successful run leaves exactly its three output files created or replaced, every
  other file as it was, and each output file holds 100 lines, the formatted samples.
\<close>

theorem three_files_of_100_lines:
  assumes "gensamples ok fmt g (start fs) = (Inr (), s')"
    and "\<forall>v. newline \<notin> set (fmt v)"
  shows "dom (files s') = dom fs \<union> outputs \<and>
         (\<forall>q. q \<notin> outputs \<longrightarrow> files s' q = fs q) \<and>
         (\<forall>p\<in>outputs. \<exists>vs. length vs = 100 \<and> files s' p = Some (contents fmt vs) \<and>
            lines_of (contents fmt vs) = map fmt vs \<and>
            length (lines_of (contents fmt vs)) = 100)"
proof (intro conjI allI impI ballI)
  fix q assume "q \<notin> outputs"
  with assms(1) show "files s' q = fs q" by (rule run_frame)
next
  fix p assume "p \<in> outputs"
  from run_outputs [OF assms(1) this] obtain vs
    where vs: "length vs = 100" "files s' p = Some (contents fmt vs)" by blast
  from assms(2) have "lines_of (contents fmt vs) = map fmt vs"
    by (simp add: lines_of_contents)
  with vs show "\<exists>vs. length vs = 100 \<and> files s' p = Some (contents fmt vs) \<and>
      lines_of (contents fmt vs) = map fmt vs \<and> length (lines_of (contents fmt vs)) = 100"
    by auto
next
  show "dom (files s') = dom fs \<union> outputs"
  proof (rule set_eqI)
    fix q
    show "q \<in> dom (files s') \<longleftrightarrow> q \<in> dom fs \<union> outputs"
    proof (cases "q \<in> outputs")
      case True
      with run_outputs [OF assms(1) True] show ?thesis by auto
    next
      case False
      with run_frame [OF assms(1) False] show ?thesis by (simp add: dom_def)
    qed
  qed
qed

lemma repr_exact_newline_free: "\<forall>v. newline \<notin> set (repr_exact v)"
  by (simp add: repr_exact_no_newline)

theorem three_files_of_100_lines_witness:
  "gensamples (\<lambda>op. True) repr_exact (\<lambda>d i. 0) (start Map.empty) =
     (Inr (), snd (gensamples (\<lambda>op. True) repr_exact (\<lambda>d i. 0) (start Map.empty))) \<and>
   dom (files (snd (gensamples (\<lambda>op. True) repr_exact (\<lambda>d i. 0) (start Map.empty)))) =
     {''data/normal.txt'', ''data/uniform.txt'', ''data/exponential.txt''} \<and>
   list_all (\<lambda>p. \<exists>c. files (snd (gensamples (\<lambda>op. True) repr_exact (\<lambda>d i. 0)
        (start Map.empty))) p = Some c \<and> length (lines_of c) = 100)
     [''data/normal.txt'', ''data/uniform.txt'', ''data/exponential.txt'']"
proof -
  note t = three_files_of_100_lines [OF run_all_ok repr_exact_newline_free,
      of "\<lambda>d i. 0" Map.empty]
  from t [THEN conjunct1]
  have d: "dom (files (snd (gensamples (\<lambda>op. True) repr_exact (\<lambda>d i. 0) (start Map.empty)))) =
     {''data/normal.txt'', ''data/uniform.txt'', ''data/exponential.txt''}"
    by (simp add: outputs_def)
  from t [THEN conjunct2, THEN conjunct2]
  have l: "list_all (\<lambda>p. \<exists>c. files (snd (gensamples (\<lambda>op. True) repr_exact (\<lambda>d i. 0)
        (start Map.empty))) p = Some c \<and> length (lines_of c) = 100)
     [''data/normal.txt'', ''data/uniform.txt'', ''data/exponential.txt'']"
    unfolding list_all_iff outputs_def by fastforce
  from run_all_ok [of repr_exact "\<lambda>d i. 0" "start Map.empty"] d l show ?thesis
    by (intro conjI)
qed

lemma parsed_lines:
  assumes "\<forall>v. newline \<notin> set (fmt v)" "\<forall>v\<in>set vs. parse (fmt v) = Some v"
  shows "map parse (lines_of (contents fmt vs)) = map Some vs"
  using assms by (simp add: lines_of_contents)

text \<open>
  C2: the content of each output file is the concatenation, in the order of generation,
  of the conversion of each sample followed by one line terminator. When the conversion
  emits no line terminator and its results parse back (the contract of the runtime's
  conversion), the lines of the file parse back to the samples.
\<close>

theorem file_is_concatenation_of_lines:
  assumes "gensamples ok fmt g (start fs) = (Inr (), s')"
    and "\<forall>v. newline \<notin> set (fmt v)"
    and "\<forall>v\<in>set (normal_samples g @ uniform_samples g @ expon_samples g).
           parse (fmt v) = Some v"
  shows "files s' ''data/normal.txt'' =
           Some (concat (map (\<lambda>v. fmt v @ [newline]) (normal_samples g))) \<and>
         files s' ''data/uniform.txt'' =
           Some (concat (map (\<lambda>v. fmt v @ [newline]) (uniform_samples g))) \<and>
         files s' ''data/exponential.txt'' =
           Some (concat (map (\<lambda>v. fmt v @ [newline]) (expon_samples g))) \<and>
         map parse (lines_of (concat (map (\<lambda>v. fmt v @ [newline]) (normal_samples g)))) =
           map Some (normal_samples g) \<and>
         map parse (lines_of (concat (map (\<lambda>v. fmt v @ [newline]) (uniform_samples g)))) =
           map Some (uniform_samples g) \<and>
         map parse (lines_of (concat (map (\<lambda>v. fmt v @ [newline]) (expon_samples g)))) =
           map Some (expon_samples g)"
proof -
  have c: "concat (map (\<lambda>v. fmt v @ [newline]) vs) = contents fmt vs" for vs
    by (induction vs) (simp_all add: contents_Nil contents_Cons format_line_def)
  from assms(3) have p: "\<forall>v\<in>set (normal_samples g). parse (fmt v) = Some v"
    "\<forall>v\<in>set (uniform_samples g). parse (fmt v) = Some v"
    "\<forall>v\<in>set (expon_samples g). parse (fmt v) = Some v" by simp_all
  show ?thesis
    unfolding c
    using run_success(1-3) [OF assms(1)] parsed_lines [OF assms(2) p(1)]
      parsed_lines [OF assms(2) p(2)] parsed_lines [OF assms(2) p(3)]
    by (intro conjI)
qed

lemma samples_zero:
  "normal_samples (\<lambda>d i. 0) = replicate 100 (Fin 100)"
  "uniform_samples (\<lambda>d i. 0) = replicate 100 (Fin 75)"
  "expon_samples (\<lambda>d i. 0) = replicate 100 (Fin 0)"
  by (simp_all only: normal_samples_def uniform_samples_def expon_samples_def variates_const
      loc_scale_zero)

theorem file_is_concatenation_of_lines_witness:
  "gensamples (\<lambda>op. True) repr_exact (\<lambda>d i. 0) (start Map.empty) =
     (Inr (), snd (gensamples (\<lambda>op. True) repr_exact (\<lambda>d i. 0) (start Map.empty))) \<and>
   files (snd (gensamples (\<lambda>op. True) repr_exact (\<lambda>d i. 0) (start Map.empty)))
     ''data/normal.txt'' = Some (concat (replicate 100 (''100.0'' @ [newline]))) \<and>
   map (map_of [(''100.0'', Fin 100), (''75.0'', Fin 75), (''0.0'', Fin 0)])
     (lines_of (concat (replicate 100 (''100.0'' @ [newline])))) = replicate 100 (Some (Fin 100))"
proof -
  let ?parse = "map_of [(''100.0'', Fin 100), (''75.0'', Fin 75), (''0.0'', Fin 0)]"
  let ?g = "\<lambda>(d::dist) (i::nat). (0::rat)"
  have h: "\<forall>v\<in>set (normal_samples ?g @ uniform_samples ?g @ expon_samples ?g).
      ?parse (repr_exact v) = Some v"
    by (simp add: samples_zero repr_exact_values)
  note t = file_is_concatenation_of_lines [OF run_all_ok repr_exact_newline_free,
      of ?g ?parse Map.empty, OF h]
  from t [THEN conjunct1]
  have f: "files (snd (gensamples (\<lambda>op. True) repr_exact ?g (start Map.empty)))
     ''data/normal.txt'' = Some (concat (replicate 100 (''100.0'' @ [newline])))"
    by (simp only: samples_zero map_replicate repr_exact_values)
  from t [THEN conjunct2, THEN conjunct2, THEN conjunct2, THEN conjunct1]
  have l: "map ?parse (lines_of (concat (replicate 100 (''100.0'' @ [newline])))) =
      replicate 100 (Some (Fin 100))"
    by (simp only: samples_zero map_replicate repr_exact_values)
  from run_all_ok [of repr_exact ?g "start Map.empty"] f l show ?thesis
    by (intro conjI)
qed

lemma variates_cong:
  "\<forall>i. c \<le> i \<and> i < c + sz \<longrightarrow> g1 d i = g2 d i \<Longrightarrow>
     variates g1 d loc scale c sz = variates g2 d loc scale c sz"
  by (simp add: variates_def)

text \<open>
  C10: the files are a function of the variates the run consumes. Two successful runs
  whose generators hand out the same 100 normal, 100 uniform and 100 exponential
  variates leave the same contents in the three files, whatever the files held before
  and whatever the generators would hand out later.
\<close>

theorem output_determined_by_variates:
  assumes "gensamples ok1 fmt g1 (start fs1) = (Inr (), s1)"
    and "gensamples ok2 fmt g2 (start fs2) = (Inr (), s2)"
    and "\<forall>i\<in>{0 ..< 100}. g1 Norm i = g2 Norm i"
    and "\<forall>i\<in>{100 ..< 200}. g1 Uniform i = g2 Uniform i"
    and "\<forall>i\<in>{200 ..< 300}. g1 Expon i = g2 Expon i"
  shows "files s1 ''data/normal.txt'' = files s2 ''data/normal.txt'' \<and>
         files s1 ''data/uniform.txt'' = files s2 ''data/uniform.txt'' \<and>
         files s1 ''data/exponential.txt'' = files s2 ''data/exponential.txt''"
proof -
  from assms(3) have "normal_samples g1 = normal_samples g2"
    unfolding normal_samples_def by (intro variates_cong) simp
  moreover from assms(4) have "uniform_samples g1 = uniform_samples g2"
    unfolding uniform_samples_def by (intro variates_cong) simp
  moreover from assms(5) have "expon_samples g1 = expon_samples g2"
    unfolding expon_samples_def by (intro variates_cong) simp
  ultimately show ?thesis
    using run_success(1-3) [OF assms(1)] run_success(1-3) [OF assms(2)] by simp
qed

theorem output_determined_by_variates_witness:
  "gensamples (\<lambda>op. True) repr_exact (\<lambda>d i. 0) (start Map.empty) =
     (Inr (), snd (gensamples (\<lambda>op. True) repr_exact (\<lambda>d i. 0) (start Map.empty))) \<and>
   gensamples (\<lambda>op. True) repr_exact (\<lambda>d i. if i < 300 then 0 else 1)
       (start [''data/normal.txt'' \<mapsto> ''stale'']) =
     (Inr (), snd (gensamples (\<lambda>op. True) repr_exact (\<lambda>d i. if i < 300 then 0 else 1)
       (start [''data/normal.txt'' \<mapsto> ''stale'']))) \<and>
   files (snd (gensamples (\<lambda>op. True) repr_exact (\<lambda>d i. 0) (start Map.empty)))
       ''data/normal.txt'' =
     files (snd (gensamples (\<lambda>op. True) repr_exact (\<lambda>d i. if i < 300 then 0 else 1)
       (start [''data/normal.txt'' \<mapsto> ''stale'']))) ''data/normal.txt'' \<and>
   files (snd (gensamples (\<lambda>op. True) repr_exact (\<lambda>d i. 0) (start Map.empty)))
       ''data/uniform.txt'' =
     files (snd (gensamples (\<lambda>op. True) repr_exact (\<lambda>d i. if i < 300 then 0 else 1)
       (start [''data/normal.txt'' \<mapsto> ''stale'']))) ''data/uniform.txt'' \<and>
   files (snd (gensamples (\<lambda>op. True) repr_exact (\<lambda>d i. 0) (start Map.empty)))
       ''data/exponential.txt'' =
     files (snd (gensamples (\<lambda>op. True) repr_exact (\<lambda>d i. if i < 300 then 0 else 1)
       (start [''data/normal.txt'' \<mapsto> ''stale'']))) ''data/exponential.txt''"
proof -
  let ?g1 = "\<lambda>(d::dist) (i::nat). (0::rat)"
  let ?g2 = "\<lambda>(d::dist) (i::nat). if i < 300 then (0::rat) else 1"
  have h: "\<forall>i\<in>{0 ..< 100}. ?g1 Norm i = ?g2 Norm i"
    "\<forall>i\<in>{100 ..< 200}. ?g1 Uniform i = ?g2 Uniform i"
    "\<forall>i\<in>{200 ..< 300}. ?g1 Expon i = ?g2 Expon i" by simp_all
  note t = output_determined_by_variates [of "\<lambda>op. True" repr_exact ?g1 Map.empty _
      "\<lambda>op. True" ?g2 "[''data/normal.txt'' \<mapsto> ''stale'']" _, OF run_all_ok run_all_ok h]
  from run_all_ok [of repr_exact ?g1 "start Map.empty"]
    run_all_ok [of repr_exact ?g2 "start [''data/normal.txt'' \<mapsto> ''stale'']"] t
  show ?thesis by (intro conjI) simp_all
qed

lemma reruns_snoc:
  "reruns fmt (rs @ [(ok, g)]) fs = Some fs' \<Longrightarrow>
     \<exists>fs0 s'. reruns fmt rs fs = Some fs0 \<and>
       gensamples ok fmt g (start fs0) = (Inr (), s') \<and> fs' = files s'"
proof (induction rs arbitrary: fs)
  case Nil
  then show ?case by (auto split: prod.splits sum.splits)
next
  case (Cons r rs)
  obtain ok0 g0 where r: "r = (ok0, g0)" by (cases r)
  from Cons.prems obtain s0 where "gensamples ok0 fmt g0 (start fs) = (Inr (), s0)"
    and "reruns fmt (rs @ [(ok, g)]) (files s0) = Some fs'"
    by (auto simp: r split: prod.splits sum.splits)
  with Cons.IH [of "files s0"] show ?case by (simp add: r)
qed

lemma reruns_all_ok:
  "reruns fmt ((\<lambda>op. True, g) # rs) fs =
     reruns fmt rs (files (snd (gensamples (\<lambda>op. True) fmt g (start fs))))"
proof -
  have "fst (gensamples (\<lambda>op. True) fmt g (start fs)) = Inr ()"
    by (simp add: gensamples_Inr_iff)
  then show ?thesis
    by (cases "gensamples (\<lambda>op. True) fmt g (start fs)") auto
qed

text \<open>
  C5: \<^verbatim>\<open>open(p, 'w')\<close> empties the file, so after any number of successful runs, one
  or more, each output file holds the 100 lines of the last run and nothing of what it
  held before.
\<close>

theorem rerun_replaces_contents:
  assumes "reruns fmt rs fs = Some fs'"
    and "rs \<noteq> []"
    and "\<forall>v. newline \<notin> set (fmt v)"
  shows "(\<forall>p s. files (open_w p s) p = Some []) \<and>
         fs' ''data/normal.txt'' = Some (contents fmt (normal_samples (snd (last rs)))) \<and>
         fs' ''data/uniform.txt'' = Some (contents fmt (uniform_samples (snd (last rs)))) \<and>
         fs' ''data/exponential.txt'' = Some (contents fmt (expon_samples (snd (last rs)))) \<and>
         (\<forall>p\<in>outputs. \<exists>c. fs' p = Some c \<and> length (lines_of c) = 100)"
proof -
  obtain ok g where l: "last rs = (ok, g)" by (cases "last rs")
  with assms(2) have "rs = butlast rs @ [(ok, g)]" by (metis append_butlast_last_id)
  with assms(1) have "reruns fmt (butlast rs @ [(ok, g)]) fs = Some fs'" by simp
  from reruns_snoc [OF this] obtain fs0 s'
    where run: "gensamples ok fmt g (start fs0) = (Inr (), s')" and fs': "fs' = files s'"
    by blast
  have "\<forall>p\<in>outputs. \<exists>c. fs' p = Some c \<and> length (lines_of c) = 100"
  proof
    fix p assume "p \<in> outputs"
    from run_outputs [OF run this] obtain vs
      where vs: "length vs = 100" "files s' p = Some (contents fmt vs)" by blast
    from assms(3) have "lines_of (contents fmt vs) = map fmt vs"
      by (simp add: lines_of_contents)
    with vs show "\<exists>c. fs' p = Some c \<and> length (lines_of c) = 100"
      by (simp add: fs')
  qed
  moreover have "\<forall>p s. files (open_w p s) p = Some []" by (simp add: open_w_def)
  ultimately show ?thesis
    using run_success(1-3) [OF run] by (simp add: fs' l)
qed

lemma loc_scale_110: "loc_scale 100 10 1 = Fin 110"
proof -
  have r: "round64 10 = 10" "round64 110 = 110" by code_simp+
  show ?thesis by (simp add: loc_scale_def fmul_def r overflow_small)
qed

lemma repr_exact_110: "repr_exact (Fin 110) = ''110.0''"
  by (simp add: repr_exact_def digits.simps digit_def)

theorem rerun_replaces_contents_witness:
  "reruns repr_exact [(\<lambda>op. True, \<lambda>d i. 0), (\<lambda>op. True, \<lambda>d i. 1)]
       [''data/normal.txt'' \<mapsto> ''stale''] =
     Some (the (reruns repr_exact [(\<lambda>op. True, \<lambda>d i. 0), (\<lambda>op. True, \<lambda>d i. 1)]
       [''data/normal.txt'' \<mapsto> ''stale''])) \<and>
   [(\<lambda>op::io_op. True, \<lambda>(d::dist) (i::nat). 0::rat), (\<lambda>op. True, \<lambda>d i. 1)] \<noteq> [] \<and>
   the (reruns repr_exact [(\<lambda>op. True, \<lambda>d i. 0), (\<lambda>op. True, \<lambda>d i. 1)]
       [''data/normal.txt'' \<mapsto> ''stale'']) ''data/normal.txt'' =
     Some (concat (replicate 100 (''110.0'' @ [newline]))) \<and>
   list_all (\<lambda>p. \<exists>c. the (reruns repr_exact [(\<lambda>op. True, \<lambda>d i. 0), (\<lambda>op. True, \<lambda>d i. 1)]
       [''data/normal.txt'' \<mapsto> ''stale'']) p = Some c \<and> length (lines_of c) = 100)
     [''data/normal.txt'', ''data/uniform.txt'', ''data/exponential.txt'']"
proof -
  let ?rs = "[(\<lambda>op::io_op. True, \<lambda>(d::dist) (i::nat). 0::rat), (\<lambda>op. True, \<lambda>d i. 1)]"
  let ?fs = "[''data/normal.txt'' \<mapsto> ''stale'']"
  have e: "reruns repr_exact ?rs ?fs = Some (the (reruns repr_exact ?rs ?fs))"
    by (simp only: reruns_all_ok reruns.simps option.sel)
  have n: "?rs \<noteq> []" by simp
  note t = rerun_replaces_contents [OF e n repr_exact_newline_free]
  have s: "normal_samples (snd (last ?rs)) = replicate 100 (Fin 110)"
    by (simp add: normal_samples_def variates_const loc_scale_110)
  from t [THEN conjunct2, THEN conjunct1]
  have f: "the (reruns repr_exact ?rs ?fs) ''data/normal.txt'' =
      Some (concat (replicate 100 (''110.0'' @ [newline])))"
    by (simp only: s contents_replicate repr_exact_110)
  from t [THEN conjunct2, THEN conjunct2, THEN conjunct2, THEN conjunct2]
  have l: "list_all (\<lambda>p. \<exists>c. the (reruns repr_exact ?rs ?fs) p = Some c \<and>
      length (lines_of c) = 100)
     [''data/normal.txt'', ''data/uniform.txt'', ''data/exponential.txt'']"
    unfolding list_all_iff outputs_def by fastforce
  from e n f l show ?thesis by (intro conjI)
qed

subsection \<open>Runs that may fail\<close>

lemma set_writes: "set (writes p i m) = (\<lambda>k. Io (Write p k)) ` {i ..< i + m}"
  by (simp add: writes_def)

lemma distinct_writes: "distinct (writes p i m)"
  by (simp add: writes_def distinct_map inj_on_def)

lemma target_writes: "e \<in> set (writes p i m) \<Longrightarrow> target e = p"
  by (auto simp: set_writes)

lemma distinct_opened:
  "distinct (Io (Open p) # Draw d sz # writes p 0 m @ [Io (Close p)])"
  by (auto simp: distinct_writes set_writes)

lemma target_opened:
  "file_of d = p \<Longrightarrow> e \<in> set (Io (Open p) # Draw d sz # writes p 0 m @ [Io (Close p)]) \<Longrightarrow>
     target e = p"
  by (auto simp: set_writes)

text \<open>What one block adds to the trace, whatever its outcome.\<close>

lemma with_open_events:
  assumes "file_of d = p"
  shows "\<exists>evs. trace (snd (with_open ok fmt g p d loc scale sz s)) = trace s @ evs \<and>
      (\<forall>e\<in>set evs. target e = p) \<and> distinct evs \<and>
      (\<forall>op. fst (with_open ok fmt g p d loc scale sz s) = Inl (OSError op) \<longrightarrow>
         \<not> ok op \<and> path_of op = p \<and>
         (\<exists>pre. evs = pre @ [Io op] \<or> evs = pre @ [Io op, Io (Close p)])) \<and>
      (fst (with_open ok fmt g p d loc scale sz s) = Inr () \<longrightarrow> evs = block p d sz)"
proof (cases "ok (Open p)")
  case False
  then show ?thesis
    by (intro exI [of _ "[Io (Open p)]"]) (simp add: with_open_fail emit_def)
next
  case True
  let ?w = "with_open ok fmt g p d loc scale sz s"
  from with_open_run [of ok p sz fmt g d loc scale s] True obtain m where
    m: "(m = sz \<and> fst ?w = (if ok (Close p) then Inr () else Inl (OSError (Close p))) \<and>
          trace (snd ?w) = trace s @ block p d sz) \<or>
        (m < sz \<and> \<not> ok (Write p m) \<and>
          fst ?w = (if ok (Close p) then Inl (OSError (Write p m)) else Inl (OSError (Close p))) \<and>
          trace (snd ?w) = trace s @ Io (Open p) # Draw d sz # writes p 0 (Suc m) @ [Io (Close p)])"
    by blast
  from m show ?thesis
  proof
    assume a: "m = sz \<and> fst ?w = (if ok (Close p) then Inr () else Inl (OSError (Close p))) \<and>
          trace (snd ?w) = trace s @ block p d sz"
    have e: "\<exists>pre. block p d sz = pre @ [Io (Close p)]"
      by (intro exI [of _ "Io (Open p) # Draw d sz # writes p 0 sz"]) (simp add: block_def)
    show ?thesis
      using a e target_opened [OF assms, of _ sz sz] distinct_opened [of p d sz sz]
      by (intro exI [of _ "block p d sz"]) (auto simp: block_def split: if_splits)
  next
    let ?evs = "Io (Open p) # Draw d sz # writes p 0 (Suc m) @ [Io (Close p)]"
    assume a: "m < sz \<and> \<not> ok (Write p m) \<and>
          fst ?w = (if ok (Close p) then Inl (OSError (Write p m)) else Inl (OSError (Close p))) \<and>
          trace (snd ?w) = trace s @ ?evs"
    have w: "writes p 0 (Suc m) = writes p 0 m @ [Io (Write p m)]"
      by (simp add: writes_def)
    have e1: "\<exists>pre. ?evs = pre @ [Io (Close p)]"
      by (intro exI [of _ "Io (Open p) # Draw d sz # writes p 0 (Suc m)"]) simp
    have e2: "\<exists>pre. ?evs = pre @ [Io (Write p m), Io (Close p)]"
      by (intro exI [of _ "Io (Open p) # Draw d sz # writes p 0 m"]) (simp add: w)
    have t: "\<forall>e\<in>set ?evs. target e = p"
      using target_opened [OF assms, of _ sz "Suc m"] by blast
    have d: "distinct ?evs" by (rule distinct_opened)
    from a have r: "fst ?w \<noteq> Inr ()" by (auto split: if_splits)
    show ?thesis
    proof (rule exI [of _ ?evs], intro conjI allI impI)
      show "trace (snd ?w) = trace s @ ?evs" using a by simp
      show "\<forall>e\<in>set ?evs. target e = p" by (rule t)
      show "distinct ?evs" by (rule d)
    next
      fix op assume "fst ?w = Inl (OSError op)"
      with a have o: "(ok (Close p) \<and> op = Write p m) \<or> (\<not> ok (Close p) \<and> op = Close p)"
        by (auto split: if_splits)
      with a show "\<not> ok op" by auto
      from o show "path_of op = p" by auto
      from o e1 e2 show "\<exists>pre. ?evs = pre @ [Io op] \<or> ?evs = pre @ [Io op, Io (Close p)]"
        by metis
    next
      assume "fst ?w = Inr ()"
      with r show "?evs = block p d sz" by simp
    qed
  qed
qed

text \<open>What three blocks in sequence add to the trace, the first error ending the run.\<close>

lemma blocks_events:
  assumes f: "file_of d1 = p1" "file_of d2 = p2" "file_of d3 = p3"
    and w1: "w1 = with_open ok fmt g p1 d1 a1 b1 n1 s"
    and w2: "w2 = with_open ok fmt g p2 d2 a2 b2 n2 (snd w1)"
    and w3: "w3 = with_open ok fmt g p3 d3 a3 b3 n3 (snd w2)"
    and R: "R = (case fst w1 of Inl e \<Rightarrow> w1
                 | Inr u \<Rightarrow> (case fst w2 of Inl e \<Rightarrow> w2 | Inr u \<Rightarrow> w3))"
  shows "\<exists>e1 e2 e3. trace (snd R) = trace s @ e1 @ e2 @ e3 \<and>
     (\<forall>e\<in>set e1. target e = p1) \<and>
     (\<forall>e\<in>set e2. target e = p2) \<and>
     (\<forall>e\<in>set e3. target e = p3) \<and>
     distinct e1 \<and> distinct e2 \<and> distinct e3 \<and>
     (e2 \<noteq> [] \<or> e3 \<noteq> [] \<longrightarrow> e1 = block p1 d1 n1) \<and>
     (e3 \<noteq> [] \<longrightarrow> e2 = block p2 d2 n2) \<and>
     (fst R = Inr () \<longrightarrow> e1 @ e2 @ e3 = block p1 d1 n1 @ block p2 d2 n2 @ block p3 d3 n3) \<and>
     (\<forall>op. fst R = Inl (OSError op) \<longrightarrow>
        \<not> ok op \<and>
        (\<exists>pre. e1 @ e2 @ e3 = pre @ [Io op] \<or>
               e1 @ e2 @ e3 = pre @ [Io op, Io (Close (path_of op))]) \<and>
        ((path_of op = p1 \<and> e2 = [] \<and> e3 = []) \<or> (path_of op = p2 \<and> e3 = []) \<or>
          path_of op = p3))"
proof -
  from with_open_events [OF f(1), of ok fmt g a1 b1 n1 s] obtain e1 where
    e1: "trace (snd w1) = trace s @ e1" "\<forall>e\<in>set e1. target e = p1" "distinct e1"
      "\<forall>op. fst w1 = Inl (OSError op) \<longrightarrow> \<not> ok op \<and> path_of op = p1 \<and>
         (\<exists>pre. e1 = pre @ [Io op] \<or> e1 = pre @ [Io op, Io (Close p1)])"
      "fst w1 = Inr () \<longrightarrow> e1 = block p1 d1 n1"
    unfolding w1 by blast
  from with_open_events [OF f(2), of ok fmt g a2 b2 n2 "snd w1"] obtain e2 where
    e2: "trace (snd w2) = trace (snd w1) @ e2" "\<forall>e\<in>set e2. target e = p2" "distinct e2"
      "\<forall>op. fst w2 = Inl (OSError op) \<longrightarrow> \<not> ok op \<and> path_of op = p2 \<and>
         (\<exists>pre. e2 = pre @ [Io op] \<or> e2 = pre @ [Io op, Io (Close p2)])"
      "fst w2 = Inr () \<longrightarrow> e2 = block p2 d2 n2"
    unfolding w2 by blast
  from with_open_events [OF f(3), of ok fmt g a3 b3 n3 "snd w2"] obtain e3 where
    e3: "trace (snd w3) = trace (snd w2) @ e3" "\<forall>e\<in>set e3. target e = p3" "distinct e3"
      "\<forall>op. fst w3 = Inl (OSError op) \<longrightarrow> \<not> ok op \<and> path_of op = p3 \<and>
         (\<exists>pre. e3 = pre @ [Io op] \<or> e3 = pre @ [Io op, Io (Close p3)])"
      "fst w3 = Inr () \<longrightarrow> e3 = block p3 d3 n3"
    unfolding w3 by blast
  have u: "fst w = Inr u \<longleftrightarrow> fst w = Inr ()" for w :: "(error + unit) \<times> state" and u
    by simp
  consider (first) x where "fst w1 = Inl x" "R = w1"
    | (second) x where "fst w1 = Inr ()" "fst w2 = Inl x" "R = w2"
    | (third) "fst w1 = Inr ()" "fst w2 = Inr ()" "R = w3"
    unfolding R by (cases "fst w1"; cases "fst w2") simp_all
  then show ?thesis
  proof cases
    case (first x)
    have tr: "trace (snd R) = trace s @ e1 @ [] @ []"
      by (simp add: first(2) e1(1))
    have ok: "fst R = Inr () \<longrightarrow> e1 @ [] @ [] = block p1 d1 n1 @ block p2 d2 n2 @ block p3 d3 n3"
      by (simp add: first)
    have er: "\<forall>op. fst R = Inl (OSError op) \<longrightarrow>
        \<not> ok op \<and>
        (\<exists>pre. e1 @ [] @ [] = pre @ [Io op] \<or>
               e1 @ [] @ [] = pre @ [Io op, Io (Close (path_of op))]) \<and>
        ((path_of op = p1 \<and> [] = ([]::event list) \<and> [] = ([]::event list)) \<or>
         (path_of op = p2 \<and> [] = ([]::event list)) \<or> path_of op = p3)"
    proof (intro allI impI)
      fix op assume "fst R = Inl (OSError op)"
      then have "fst w1 = Inl (OSError op)" by (simp add: first(2))
      with e1(4) have "\<not> ok op" "path_of op = p1"
        "\<exists>pre. e1 = pre @ [Io op] \<or> e1 = pre @ [Io op, Io (Close p1)]"
        by blast+
      then show "\<not> ok op \<and>
        (\<exists>pre. e1 @ [] @ [] = pre @ [Io op] \<or>
               e1 @ [] @ [] = pre @ [Io op, Io (Close (path_of op))]) \<and>
        ((path_of op = p1 \<and> [] = ([]::event list) \<and> [] = ([]::event list)) \<or>
         (path_of op = p2 \<and> [] = ([]::event list)) \<or> path_of op = p3)"
        by simp
    qed
    show ?thesis
      by (rule exI [of _ e1], rule exI [of _ "[]"], rule exI [of _ "[]"])
        (intro conjI; (fact tr e1(2,3) ok er | simp))
  next
    case (second x)
    from second(1) e1(5) have b: "e1 = block p1 d1 n1" by simp
    have tr: "trace (snd R) = trace s @ e1 @ e2 @ []"
      by (simp add: second(3) e2(1) e1(1))
    have ok: "fst R = Inr () \<longrightarrow> e1 @ e2 @ [] = block p1 d1 n1 @ block p2 d2 n2 @ block p3 d3 n3"
      by (simp add: second)
    have er: "\<forall>op. fst R = Inl (OSError op) \<longrightarrow>
        \<not> ok op \<and>
        (\<exists>pre. e1 @ e2 @ [] = pre @ [Io op] \<or>
               e1 @ e2 @ [] = pre @ [Io op, Io (Close (path_of op))]) \<and>
        ((path_of op = p1 \<and> e2 = [] \<and> [] = ([]::event list)) \<or>
         (path_of op = p2 \<and> [] = ([]::event list)) \<or> path_of op = p3)"
    proof (intro allI impI)
      fix op assume "fst R = Inl (OSError op)"
      then have "fst w2 = Inl (OSError op)" by (simp add: second(3))
      with e2(4) obtain pre where p: "\<not> ok op" "path_of op = p2"
        "e2 = pre @ [Io op] \<or> e2 = pre @ [Io op, Io (Close p2)]"
        by blast
      from p(3) have "e1 @ e2 @ [] = (e1 @ pre) @ [Io op] \<or>
          e1 @ e2 @ [] = (e1 @ pre) @ [Io op, Io (Close p2)]" by auto
      then have "\<exists>pre. e1 @ e2 @ [] = pre @ [Io op] \<or>
          e1 @ e2 @ [] = pre @ [Io op, Io (Close p2)]" by (rule exI)
      with p(1,2) show "\<not> ok op \<and>
        (\<exists>pre. e1 @ e2 @ [] = pre @ [Io op] \<or>
               e1 @ e2 @ [] = pre @ [Io op, Io (Close (path_of op))]) \<and>
        ((path_of op = p1 \<and> e2 = [] \<and> [] = ([]::event list)) \<or>
         (path_of op = p2 \<and> [] = ([]::event list)) \<or> path_of op = p3)"
        by simp
    qed
    show ?thesis
      by (rule exI [of _ e1], rule exI [of _ e2], rule exI [of _ "[]"])
        (intro conjI; (fact tr e1(2,3) e2(2,3) ok er | simp add: b))
  next
    case third
    from third(1) e1(5) have b1: "e1 = block p1 d1 n1" by simp
    from third(2) e2(5) have b2: "e2 = block p2 d2 n2" by simp
    have tr: "trace (snd R) = trace s @ e1 @ e2 @ e3"
      by (simp add: third(3) e3(1) e2(1) e1(1))
    have ok: "fst R = Inr () \<longrightarrow> e1 @ e2 @ e3 = block p1 d1 n1 @ block p2 d2 n2 @ block p3 d3 n3"
      using e3(5) by (simp add: third(3) b1 b2)
    have er: "\<forall>op. fst R = Inl (OSError op) \<longrightarrow>
        \<not> ok op \<and>
        (\<exists>pre. e1 @ e2 @ e3 = pre @ [Io op] \<or>
               e1 @ e2 @ e3 = pre @ [Io op, Io (Close (path_of op))]) \<and>
        ((path_of op = p1 \<and> e2 = [] \<and> e3 = []) \<or> (path_of op = p2 \<and> e3 = []) \<or>
          path_of op = p3)"
    proof (intro allI impI)
      fix op assume "fst R = Inl (OSError op)"
      then have "fst w3 = Inl (OSError op)" by (simp add: third(3))
      with e3(4) obtain pre where p: "\<not> ok op" "path_of op = p3"
        "e3 = pre @ [Io op] \<or> e3 = pre @ [Io op, Io (Close p3)]"
        by blast
      from p(3) have "e1 @ e2 @ e3 = (e1 @ e2 @ pre) @ [Io op] \<or>
          e1 @ e2 @ e3 = (e1 @ e2 @ pre) @ [Io op, Io (Close p3)]" by auto
      then have "\<exists>pre. e1 @ e2 @ e3 = pre @ [Io op] \<or>
          e1 @ e2 @ e3 = pre @ [Io op, Io (Close p3)]" by (rule exI)
      with p(1,2) show "\<not> ok op \<and>
        (\<exists>pre. e1 @ e2 @ e3 = pre @ [Io op] \<or>
               e1 @ e2 @ e3 = pre @ [Io op, Io (Close (path_of op))]) \<and>
        ((path_of op = p1 \<and> e2 = [] \<and> e3 = []) \<or> (path_of op = p2 \<and> e3 = []) \<or>
          path_of op = p3)"
        by simp
    qed
    show ?thesis
      by (rule exI [of _ e1], rule exI [of _ e2], rule exI [of _ e3])
        (intro conjI; (fact tr e1(2,3) e2(2,3) e3(2,3) ok er | simp add: b1 b2))
  qed
qed

lemma block_ops_ok:
  assumes "fst (with_open ok fmt g p d a b sz s) = Inr ()" "Io op \<in> set (block p d sz)"
  shows "ok op"
proof -
  from assms(1) have o: "ok (Open p)" "\<forall>k<sz. ok (Write p k)" "ok (Close p)"
    by (simp_all add: with_open_Inr_iff)
  from assms(2) have "op = Open p \<or> op = Close p \<or> (\<exists>k<sz. op = Write p k)"
    by (auto simp: block_def set_writes)
  with o show ?thesis by auto
qed

lemma with_open_error_path:
  "fst (with_open ok fmt g p d a b sz s) = Inl (OSError op) \<Longrightarrow> path_of op = p"
proof (cases "ok (Open p)")
  case False
  assume "fst (with_open ok fmt g p d a b sz s) = Inl (OSError op)"
  with False show ?thesis by (auto simp: with_open_fail)
next
  case True
  assume "fst (with_open ok fmt g p d a b sz s) = Inl (OSError op)"
  with with_open_run [of ok p sz fmt g d a b s] True show ?thesis
    by (auto split: if_splits)
qed

text \<open>Three blocks in sequence: success, the frame of a failure, and the handles.\<close>

lemma blocks_success:
  assumes w1: "w1 = with_open ok fmt g p1 d1 a1 b1 n1 s"
    and w2: "w2 = with_open ok fmt g p2 d2 a2 b2 n2 (snd w1)"
    and w3: "w3 = with_open ok fmt g p3 d3 a3 b3 n3 (snd w2)"
    and R: "R = (case fst w1 of Inl e \<Rightarrow> w1
                 | Inr u \<Rightarrow> (case fst w2 of Inl e \<Rightarrow> w2 | Inr u \<Rightarrow> w3))"
    and r: "fst R = Inr ()"
    and op: "Io op \<in> set (block p1 d1 n1 @ block p2 d2 n2 @ block p3 d3 n3)"
  shows "ok op"
proof -
  from r have "fst w1 = Inr ()" "fst w2 = Inr ()" "fst w3 = Inr ()"
    unfolding R by (cases "fst w1"; cases "fst w2"; simp)+
  then have "Io op \<in> set (block p1 d1 n1) \<Longrightarrow> ok op"
    "Io op \<in> set (block p2 d2 n2) \<Longrightarrow> ok op" "Io op \<in> set (block p3 d3 n3) \<Longrightarrow> ok op"
    unfolding w1 w2 w3 by (blast intro: block_ops_ok)+
  with op show ?thesis by auto
qed

lemma blocks_frame:
  assumes w1: "w1 = with_open ok fmt g p1 d1 a1 b1 n1 s"
    and w2: "w2 = with_open ok fmt g p2 d2 a2 b2 n2 (snd w1)"
    and w3: "w3 = with_open ok fmt g p3 d3 a3 b3 n3 (snd w2)"
    and R: "R = (case fst w1 of Inl e \<Rightarrow> w1
                 | Inr u \<Rightarrow> (case fst w2 of Inl e \<Rightarrow> w2 | Inr u \<Rightarrow> w3))"
    and r: "fst R = Inl (OSError op)"
    and d: "p1 \<noteq> p2" "p1 \<noteq> p3" "p2 \<noteq> p3"
  shows "path_of op = p1 \<Longrightarrow> files (snd R) p2 = files s p2 \<and> files (snd R) p3 = files s p3"
    and "path_of op = p2 \<Longrightarrow> files (snd R) p3 = files s p3"
proof -
  consider (first) x where "fst w1 = Inl x" "R = w1"
    | (second) x where "fst w1 = Inr ()" "fst w2 = Inl x" "R = w2"
    | (third) "fst w1 = Inr ()" "fst w2 = Inr ()" "R = w3"
    unfolding R by (cases "fst w1"; cases "fst w2") simp_all
  then have "(path_of op = p1 \<longrightarrow> files (snd R) p2 = files s p2 \<and> files (snd R) p3 = files s p3) \<and>
      (path_of op = p2 \<longrightarrow> files (snd R) p3 = files s p3)"
  proof cases
    case (first x)
    with d show ?thesis unfolding first(2) w1 by (simp add: with_open_frame)
  next
    case (second x)
    from r second(3) have "path_of op = p2"
      unfolding w2 by (simp add: with_open_error_path)
    with d show ?thesis unfolding second(3) w2 w1 by (simp add: with_open_frame)
  next
    case third
    from r third(3) have "path_of op = p3"
      unfolding w3 by (simp add: with_open_error_path)
    with d show ?thesis by simp
  qed
  then show "path_of op = p1 \<Longrightarrow> files (snd R) p2 = files s p2 \<and> files (snd R) p3 = files s p3"
    and "path_of op = p2 \<Longrightarrow> files (snd R) p3 = files s p3" by simp_all
qed

lemma blocks_handles:
  assumes w1: "w1 = with_open ok fmt g p1 d1 a1 b1 n1 s"
    and w2: "w2 = with_open ok fmt g p2 d2 a2 b2 n2 (snd w1)"
    and w3: "w3 = with_open ok fmt g p3 d3 a3 b3 n3 (snd w2)"
    and R: "R = (case fst w1 of Inl e \<Rightarrow> w1
                 | Inr u \<Rightarrow> (case fst w2 of Inl e \<Rightarrow> w2 | Inr u \<Rightarrow> w3))"
    and h: "handles s = {}"
  shows "handles (snd R) = {}"
proof -
  from h have "handles (snd w1) = {}" unfolding w1 by (simp add: with_open_handles)
  then have "handles (snd w2) = {}" unfolding w2 by (simp add: with_open_handles)
  then have "handles (snd w3) = {}" unfolding w3 by (simp add: with_open_handles)
  with \<open>handles (snd w1) = {}\<close> \<open>handles (snd w2) = {}\<close> show ?thesis
    unfolding R by (cases "fst w1"; cases "fst w2") simp_all
qed

lemma sorted_const: "\<forall>x\<in>set xs. f x = (c::nat) \<Longrightarrow> sorted (map f xs)"
  by (induction xs) auto

lemma staged_sorted:
  assumes "\<forall>e\<in>set e1. stage e = 0" "\<forall>e\<in>set e2. stage e = 1" "\<forall>e\<in>set e3. stage e = 2"
  shows "sorted (map stage (e1 @ e2 @ e3))"
  using assms sorted_const [of e1 stage 0] sorted_const [of e2 stage 1]
    sorted_const [of e3 stage 2]
  by (auto simp: sorted_append)

lemma staged_distinct:
  assumes "\<forall>e\<in>set e1. target e = p1" "\<forall>e\<in>set e2. target e = p2" "\<forall>e\<in>set e3. target e = p3"
    and "p1 \<noteq> p2" "p1 \<noteq> p3" "p2 \<noteq> p3"
    and "distinct e1" "distinct e2" "distinct e3"
  shows "distinct (e1 @ e2 @ e3)"
  using assms by fastforce

lemma staged_order:
  assumes "\<forall>e\<in>set e1. target e = p1" "\<forall>e\<in>set e2. target e = p2" "\<forall>e\<in>set e3. target e = p3"
    and "p1 \<noteq> p3" "p2 \<noteq> p3"
    and "e2 \<noteq> [] \<or> e3 \<noteq> [] \<longrightarrow> e1 = B1" "e3 \<noteq> [] \<longrightarrow> e2 = B2"
  shows "(\<exists>e\<in>set (e1 @ e2 @ e3). target e \<noteq> p1) \<longrightarrow> (\<exists>rest. e1 @ e2 @ e3 = B1 @ rest)"
    and "(\<exists>e\<in>set (e1 @ e2 @ e3). target e = p3) \<longrightarrow> (\<exists>rest. e1 @ e2 @ e3 = B1 @ B2 @ rest)"
proof -
  show "(\<exists>e\<in>set (e1 @ e2 @ e3). target e \<noteq> p1) \<longrightarrow> (\<exists>rest. e1 @ e2 @ e3 = B1 @ rest)"
  proof
    assume "\<exists>e\<in>set (e1 @ e2 @ e3). target e \<noteq> p1"
    with assms(1) have "e2 \<noteq> [] \<or> e3 \<noteq> []" by auto
    with assms(6) have "e1 = B1" by simp
    then show "\<exists>rest. e1 @ e2 @ e3 = B1 @ rest" by simp
  qed
  show "(\<exists>e\<in>set (e1 @ e2 @ e3). target e = p3) \<longrightarrow> (\<exists>rest. e1 @ e2 @ e3 = B1 @ B2 @ rest)"
  proof
    assume "\<exists>e\<in>set (e1 @ e2 @ e3). target e = p3"
    with assms(1,2,4,5) have "e3 \<noteq> []" by auto
    with assms(6,7) have "e1 = B1" "e2 = B2" by simp_all
    then show "\<exists>rest. e1 @ e2 @ e3 = B1 @ B2 @ rest" by simp
  qed
qed

lemma ends_with_mem: "xs = pre @ [x] \<or> xs = pre @ [x, y] \<Longrightarrow> x \<in> set xs"
  by auto

lemma blocks_sequence:
  assumes f: "file_of d1 = p1" "file_of d2 = p2" "file_of d3 = p3"
    and w1: "w1 = with_open ok fmt g p1 d1 a1 b1 n1 s"
    and w2: "w2 = with_open ok fmt g p2 d2 a2 b2 n2 (snd w1)"
    and w3: "w3 = with_open ok fmt g p3 d3 a3 b3 n3 (snd w2)"
    and R: "R = (case fst w1 of Inl e \<Rightarrow> w1
                 | Inr u \<Rightarrow> (case fst w2 of Inl e \<Rightarrow> w2 | Inr u \<Rightarrow> w3))"
    and d: "p1 \<noteq> p2" "p1 \<noteq> p3" "p2 \<noteq> p3"
    and st: "\<forall>e. target e = p1 \<longrightarrow> stage e = 0" "\<forall>e. target e = p2 \<longrightarrow> stage e = 1"
      "\<forall>e. target e = p3 \<longrightarrow> stage e = 2"
    and t: "trace s = []"
  shows "sorted (map stage (trace (snd R))) \<and>
     ((\<exists>e\<in>set (trace (snd R)). target e \<noteq> p1) \<longrightarrow>
        (\<exists>rest. trace (snd R) = block p1 d1 n1 @ rest)) \<and>
     ((\<exists>e\<in>set (trace (snd R)). target e = p3) \<longrightarrow>
        (\<exists>rest. trace (snd R) = block p1 d1 n1 @ block p2 d2 n2 @ rest)) \<and>
     (fst R = Inr () \<longrightarrow>
        trace (snd R) = block p1 d1 n1 @ block p2 d2 n2 @ block p3 d3 n3)"
proof -
  from blocks_events [OF f w1 w2 w3 R] obtain e1 e2 e3 where
    tr: "trace (snd R) = trace s @ e1 @ e2 @ e3"
    and tg: "\<forall>e\<in>set e1. target e = p1" "\<forall>e\<in>set e2. target e = p2" "\<forall>e\<in>set e3. target e = p3"
    and b: "e2 \<noteq> [] \<or> e3 \<noteq> [] \<longrightarrow> e1 = block p1 d1 n1" "e3 \<noteq> [] \<longrightarrow> e2 = block p2 d2 n2"
    and su: "fst R = Inr () \<longrightarrow> e1 @ e2 @ e3 = block p1 d1 n1 @ block p2 d2 n2 @ block p3 d3 n3"
    by blast
  from tr t have tr': "trace (snd R) = e1 @ e2 @ e3" by simp
  from tg st have "\<forall>e\<in>set e1. stage e = 0" "\<forall>e\<in>set e2. stage e = 1" "\<forall>e\<in>set e3. stage e = 2"
    by simp_all
  then have "sorted (map stage (e1 @ e2 @ e3))" by (rule staged_sorted)
  with staged_order [OF tg d(2,3) b] su show ?thesis
    unfolding tr' by (intro conjI)
qed

lemma blocks_error:
  assumes f: "file_of d1 = p1" "file_of d2 = p2" "file_of d3 = p3"
    and w1: "w1 = with_open ok fmt g p1 d1 a1 b1 n1 s"
    and w2: "w2 = with_open ok fmt g p2 d2 a2 b2 n2 (snd w1)"
    and w3: "w3 = with_open ok fmt g p3 d3 a3 b3 n3 (snd w2)"
    and R: "R = (case fst w1 of Inl e \<Rightarrow> w1
                 | Inr u \<Rightarrow> (case fst w2 of Inl e \<Rightarrow> w2 | Inr u \<Rightarrow> w3))"
    and d: "p1 \<noteq> p2" "p1 \<noteq> p3" "p2 \<noteq> p3"
    and t: "trace s = []" and h: "handles s = {}"
  shows "handles (snd R) = {} \<and> distinct (trace (snd R)) \<and>
     (fst R = Inr () \<longleftrightarrow> (\<forall>op. Io op \<in> set (trace (snd R)) \<longrightarrow> ok op)) \<and>
     (\<forall>op. fst R = Inl (OSError op) \<longrightarrow>
        \<not> ok op \<and>
        (\<exists>pre. trace (snd R) = pre @ [Io op] \<or>
               trace (snd R) = pre @ [Io op, Io (Close (path_of op))]))"
proof -
  from blocks_events [OF f w1 w2 w3 R] obtain e1 e2 e3 where
    tr: "trace (snd R) = trace s @ e1 @ e2 @ e3"
    and tg: "\<forall>e\<in>set e1. target e = p1" "\<forall>e\<in>set e2. target e = p2" "\<forall>e\<in>set e3. target e = p3"
    and di: "distinct e1" "distinct e2" "distinct e3"
    and su: "fst R = Inr () \<longrightarrow> e1 @ e2 @ e3 = block p1 d1 n1 @ block p2 d2 n2 @ block p3 d3 n3"
    and er: "\<forall>op. fst R = Inl (OSError op) \<longrightarrow> \<not> ok op \<and>
        (\<exists>pre. e1 @ e2 @ e3 = pre @ [Io op] \<or>
               e1 @ e2 @ e3 = pre @ [Io op, Io (Close (path_of op))])"
    by blast
  from tr t have tr': "trace (snd R) = e1 @ e2 @ e3" by simp
  have 1: "handles (snd R) = {}" by (rule blocks_handles [OF w1 w2 w3 R h])
  have 2: "distinct (e1 @ e2 @ e3)" by (rule staged_distinct [OF tg d di])
  have 3: "fst R = Inr () \<longleftrightarrow> (\<forall>op. Io op \<in> set (e1 @ e2 @ e3) \<longrightarrow> ok op)"
  proof
    assume r: "fst R = Inr ()"
    with su have "e1 @ e2 @ e3 = block p1 d1 n1 @ block p2 d2 n2 @ block p3 d3 n3" by simp
    with blocks_success [OF w1 w2 w3 R r] show "\<forall>op. Io op \<in> set (e1 @ e2 @ e3) \<longrightarrow> ok op"
      by simp
  next
    assume a: "\<forall>op. Io op \<in> set (e1 @ e2 @ e3) \<longrightarrow> ok op"
    show "fst R = Inr ()"
    proof (cases "fst R")
      case (Inr u)
      then show ?thesis by simp
    next
      case (Inl x)
      obtain op where "x = OSError op" by (cases x)
      with Inl er have n: "\<not> ok op"
        and "\<exists>pre. e1 @ e2 @ e3 = pre @ [Io op] \<or>
               e1 @ e2 @ e3 = pre @ [Io op, Io (Close (path_of op))]" by simp_all
      then obtain pre where "e1 @ e2 @ e3 = pre @ [Io op] \<or>
               e1 @ e2 @ e3 = pre @ [Io op, Io (Close (path_of op))]" by (elim exE)
      then have "Io op \<in> set (e1 @ e2 @ e3)" by (rule ends_with_mem)
      with a n show ?thesis by blast
    qed
  qed
  from 1 2 3 er show ?thesis unfolding tr' by (intro conjI)
qed

lemma blocks_failfast:
  assumes f: "file_of d1 = p1" "file_of d2 = p2" "file_of d3 = p3"
    and w1: "w1 = with_open ok fmt g p1 d1 a1 b1 n1 s"
    and w2: "w2 = with_open ok fmt g p2 d2 a2 b2 n2 (snd w1)"
    and w3: "w3 = with_open ok fmt g p3 d3 a3 b3 n3 (snd w2)"
    and R: "R = (case fst w1 of Inl e \<Rightarrow> w1
                 | Inr u \<Rightarrow> (case fst w2 of Inl e \<Rightarrow> w2 | Inr u \<Rightarrow> w3))"
    and d: "p1 \<noteq> p2" "p1 \<noteq> p3" "p2 \<noteq> p3"
    and t: "trace s = []"
    and r: "fst R = Inl (OSError op)"
  shows "(path_of op = p1 \<or> path_of op = p2 \<or> path_of op = p3) \<and>
     (path_of op = p1 \<longrightarrow>
        files (snd R) p2 = files s p2 \<and> files (snd R) p3 = files s p3 \<and>
        (\<forall>e\<in>set (trace (snd R)). target e = p1)) \<and>
     (path_of op = p2 \<longrightarrow>
        files (snd R) p3 = files s p3 \<and> (\<forall>e\<in>set (trace (snd R)). target e \<noteq> p3))"
proof -
  from blocks_events [OF f w1 w2 w3 R] r obtain e1 e2 e3 where
    tr: "trace (snd R) = trace s @ e1 @ e2 @ e3"
    and tg: "\<forall>e\<in>set e1. target e = p1" "\<forall>e\<in>set e2. target e = p2" "\<forall>e\<in>set e3. target e = p3"
    and pa: "(path_of op = p1 \<and> e2 = [] \<and> e3 = []) \<or> (path_of op = p2 \<and> e3 = []) \<or>
          path_of op = p3"
    by blast
  from tr t have tr': "trace (snd R) = e1 @ e2 @ e3" by simp
  note fr = blocks_frame [OF w1 w2 w3 R r d]
  from pa have 1: "path_of op = p1 \<or> path_of op = p2 \<or> path_of op = p3" by blast
  have 2: "path_of op = p1 \<longrightarrow>
        files (snd R) p2 = files s p2 \<and> files (snd R) p3 = files s p3 \<and>
        (\<forall>e\<in>set (e1 @ e2 @ e3). target e = p1)"
  proof
    assume p: "path_of op = p1"
    with pa d have "e2 = []" "e3 = []" by auto
    with tg(1) fr(1) [OF p] show "files (snd R) p2 = files s p2 \<and>
        files (snd R) p3 = files s p3 \<and> (\<forall>e\<in>set (e1 @ e2 @ e3). target e = p1)" by simp
  qed
  have 3: "path_of op = p2 \<longrightarrow>
        files (snd R) p3 = files s p3 \<and> (\<forall>e\<in>set (e1 @ e2 @ e3). target e \<noteq> p3)"
  proof
    assume p: "path_of op = p2"
    with pa d have "e3 = []" by auto
    with tg(1,2) d fr(2) [OF p] show "files (snd R) p3 = files s p3 \<and>
        (\<forall>e\<in>set (e1 @ e2 @ e3). target e \<noteq> p3)" by auto
  qed
  from 1 2 3 show ?thesis unfolding tr' by (intro conjI)
qed

lemma paths_distinct:
  "''data/normal.txt'' \<noteq> ''data/uniform.txt''" "''data/normal.txt'' \<noteq> ''data/exponential.txt''"
  "''data/uniform.txt'' \<noteq> ''data/exponential.txt''"
  by simp_all

lemma stage_of_target:
  "\<forall>e. target e = ''data/normal.txt'' \<longrightarrow> stage e = 0"
  "\<forall>e. target e = ''data/uniform.txt'' \<longrightarrow> stage e = 1"
  "\<forall>e. target e = ''data/exponential.txt'' \<longrightarrow> stage e = 2"
  by (simp_all add: stage_def)

lemma start_simps:
  "trace (start fs) = []" "handles (start fs) = {}" "files (start fs) = fs"
  "cursor (start fs) = 0"
  by (simp_all add: start_def)

lemma file_of_simps:
  "file_of Norm = ''data/normal.txt''" "file_of Uniform = ''data/uniform.txt''"
  "file_of Expon = ''data/exponential.txt''"
  by (simp_all add: file_of_def)

lemmas gensamples_blocks = gensamples_unfold [unfolded Let_def]

text \<open>
  C4: in every run the effects come in the order of the script. All effects on
  \<^verbatim>\<open>data/normal.txt\<close> come first, then those on \<^verbatim>\<open>data/uniform.txt\<close>, then those on
  \<^verbatim>\<open>data/exponential.txt\<close>; a later file is touched only after the block of each earlier
  one is complete, from its \<^verbatim>\<open>open\<close> to its \<^verbatim>\<open>close\<close>. No effect is a read, and on success
  each file holds the lines of its own samples.
\<close>

theorem effects_in_sequence:
  assumes "gensamples ok fmt g (start fs) = (r, s')"
  shows "sorted (map stage (trace s')) \<and>
     ((\<exists>e\<in>set (trace s'). target e \<noteq> ''data/normal.txt'') \<longrightarrow>
        (\<exists>rest. trace s' = block ''data/normal.txt'' Norm 100 @ rest)) \<and>
     ((\<exists>e\<in>set (trace s'). target e = ''data/exponential.txt'') \<longrightarrow>
        (\<exists>rest. trace s' = block ''data/normal.txt'' Norm 100 @
           block ''data/uniform.txt'' Uniform 100 @ rest)) \<and>
     (r = Inr () \<longrightarrow> trace s' = schedule \<and>
        files s' ''data/normal.txt'' = Some (contents fmt (normal_samples g)) \<and>
        files s' ''data/uniform.txt'' = Some (contents fmt (uniform_samples g)) \<and>
        files s' ''data/exponential.txt'' = Some (contents fmt (expon_samples g)))"
proof -
  have fs: "fst (gensamples ok fmt g (start fs)) = r" "snd (gensamples ok fmt g (start fs)) = s'"
    by (simp_all add: assms)
  note b = blocks_sequence [OF file_of_simps refl refl refl gensamples_blocks paths_distinct
      stage_of_target start_simps(1), of ok fmt g fs, unfolded fs]
  have "r = Inr () \<longrightarrow> trace s' = schedule \<and>
        files s' ''data/normal.txt'' = Some (contents fmt (normal_samples g)) \<and>
        files s' ''data/uniform.txt'' = Some (contents fmt (uniform_samples g)) \<and>
        files s' ''data/exponential.txt'' = Some (contents fmt (expon_samples g))"
  proof
    assume "r = Inr ()"
    with assms have "gensamples ok fmt g (start fs) = (Inr (), s')" by simp
    from run_success [OF this] show "trace s' = schedule \<and>
        files s' ''data/normal.txt'' = Some (contents fmt (normal_samples g)) \<and>
        files s' ''data/uniform.txt'' = Some (contents fmt (uniform_samples g)) \<and>
        files s' ''data/exponential.txt'' = Some (contents fmt (expon_samples g))"
      by (intro conjI)
  qed
  with b [THEN conjunct1] b [THEN conjunct2, THEN conjunct1]
    b [THEN conjunct2, THEN conjunct2, THEN conjunct1]
  show ?thesis by (intro conjI)
qed

theorem effects_in_sequence_witness:
  "gensamples (\<lambda>op. True) repr_exact (\<lambda>d i. 0) (start Map.empty) =
     (Inr (), snd (gensamples (\<lambda>op. True) repr_exact (\<lambda>d i. 0) (start Map.empty))) \<and>
   sorted (map stage
     (trace (snd (gensamples (\<lambda>op. True) repr_exact (\<lambda>d i. 0) (start Map.empty))))) \<and>
   trace (snd (gensamples (\<lambda>op. True) repr_exact (\<lambda>d i. 0) (start Map.empty))) = schedule"
proof -
  note t = effects_in_sequence [OF run_all_ok, of repr_exact "\<lambda>d i. 0" Map.empty]
  from t [THEN conjunct2, THEN conjunct2, THEN conjunct2]
  have "trace (snd (gensamples (\<lambda>op. True) repr_exact (\<lambda>d i. 0) (start Map.empty))) = schedule"
    by simp
  with run_all_ok [of repr_exact "\<lambda>d i. 0" "start Map.empty"] t [THEN conjunct1]
  show ?thesis by (intro conjI)
qed

lemma with_open_write_error:
  assumes "ok (Open p)" "m < sz" "\<forall>k<m. ok (Write p k)" "\<not> ok (Write p m)" "ok (Close p)"
  shows "fst (with_open ok fmt g p d a b sz s) = Inl (OSError (Write p m))"
proof -
  let ?w = "with_open ok fmt g p d a b sz s"
  from with_open_run [of ok p sz fmt g d a b s] assms(1) obtain m' where
    m': "\<forall>k<m'. ok (Write p k)"
      "(m' = sz \<and> fst ?w = (if ok (Close p) then Inr () else Inl (OSError (Close p)))) \<or>
       (m' < sz \<and> \<not> ok (Write p m') \<and>
        fst ?w = (if ok (Close p) then Inl (OSError (Write p m')) else Inl (OSError (Close p))))"
    by blast
  from m'(1) assms(4) have "\<not> m < m'" by blast
  moreover from m'(2) assms(2) this have "m' < sz" "\<not> ok (Write p m')" by auto
  with assms(3) have "\<not> m' < m" by blast
  ultimately have "m' = m" by simp
  with m'(2) assms(2,5) show ?thesis by auto
qed

text \<open>A run in which the fourth write to \<^verbatim>\<open>data/uniform.txt\<close> fails.\<close>

lemma failing_run:
  "fst (gensamples (\<lambda>op. op \<noteq> Write ''data/uniform.txt'' 3) fmt g s) =
     Inl (OSError (Write ''data/uniform.txt'' 3))"
proof -
  let ?ok = "\<lambda>op. op \<noteq> Write ''data/uniform.txt'' 3"
  let ?w1 = "with_open ?ok fmt g ''data/normal.txt'' Norm 100 10 100 s"
  have 1: "fst ?w1 = Inr ()" by (simp add: with_open_Inr_iff)
  have 2: "fst (with_open ?ok fmt g ''data/uniform.txt'' Uniform 75 50 100 (snd ?w1)) =
      Inl (OSError (Write ''data/uniform.txt'' 3))"
    by (rule with_open_write_error) simp_all
  show ?thesis by (simp add: gensamples_blocks 1 2)
qed

lemma failing_run_pair:
  "gensamples (\<lambda>op. op \<noteq> Write ''data/uniform.txt'' 3) fmt g s =
     (Inl (OSError (Write ''data/uniform.txt'' 3)),
      snd (gensamples (\<lambda>op. op \<noteq> Write ''data/uniform.txt'' 3) fmt g s))"
  using failing_run [of fmt g s] by (metis prod.collapse)

text \<open>
  C8: whatever file operation raises, no handle is held when the run ends; the error is
  the result of the run (nothing catches it), no operation is attempted twice, and after
  the failed operation nothing follows but the release of the handle. The exit status is
  0 exactly on success, which is exactly when every attempted operation succeeded, and 1
  on an error.
\<close>

theorem io_error_ends_run:
  assumes "gensamples ok fmt g (start fs) = (r, s')"
  shows "handles s' = {} \<and> distinct (trace s') \<and>
     (r = Inr () \<longleftrightarrow> (\<forall>op. Io op \<in> set (trace s') \<longrightarrow> ok op)) \<and>
     (exit_status r = 0 \<longleftrightarrow> r = Inr ()) \<and>
     (\<forall>op. r = Inl (OSError op) \<longrightarrow>
        \<not> ok op \<and> exit_status r = 1 \<and>
        (\<exists>pre. trace s' = pre @ [Io op] \<or>
               trace s' = pre @ [Io op, Io (Close (path_of op))]))"
proof -
  have fs: "fst (gensamples ok fmt g (start fs)) = r" "snd (gensamples ok fmt g (start fs)) = s'"
    by (simp_all add: assms)
  note b = blocks_error [OF file_of_simps refl refl refl gensamples_blocks paths_distinct
      start_simps(1,2), of ok fmt g fs, unfolded fs]
  have e: "exit_status r = 0 \<longleftrightarrow> r = Inr ()"
    by (cases r) (simp_all add: exit_status_def)
  have x: "\<forall>op. r = Inl (OSError op) \<longrightarrow>
        \<not> ok op \<and> exit_status r = 1 \<and>
        (\<exists>pre. trace s' = pre @ [Io op] \<or>
               trace s' = pre @ [Io op, Io (Close (path_of op))])"
  proof (intro allI impI)
    fix op assume r: "r = Inl (OSError op)"
    then have "exit_status r = 1" by (simp add: exit_status_def)
    with b [THEN conjunct2, THEN conjunct2, THEN conjunct2, rule_format, OF r]
    show "\<not> ok op \<and> exit_status r = 1 \<and>
        (\<exists>pre. trace s' = pre @ [Io op] \<or>
               trace s' = pre @ [Io op, Io (Close (path_of op))])"
      by simp
  qed
  from b [THEN conjunct1] b [THEN conjunct2, THEN conjunct1]
    b [THEN conjunct2, THEN conjunct2, THEN conjunct1] e x
  show ?thesis by (intro conjI)
qed

theorem io_error_ends_run_witness:
  "gensamples (\<lambda>op. op \<noteq> Write ''data/uniform.txt'' 3) repr_exact (\<lambda>d i. 0) (start Map.empty) =
     (Inl (OSError (Write ''data/uniform.txt'' 3)),
      snd (gensamples (\<lambda>op. op \<noteq> Write ''data/uniform.txt'' 3) repr_exact (\<lambda>d i. 0)
        (start Map.empty))) \<and>
   handles (snd (gensamples (\<lambda>op. op \<noteq> Write ''data/uniform.txt'' 3) repr_exact (\<lambda>d i. 0)
        (start Map.empty))) = {} \<and>
   distinct (trace (snd (gensamples (\<lambda>op. op \<noteq> Write ''data/uniform.txt'' 3) repr_exact
        (\<lambda>d i. 0) (start Map.empty)))) \<and>
   exit_status (Inl (OSError (Write ''data/uniform.txt'' 3))) = 1"
proof -
  note t = io_error_ends_run [OF failing_run_pair, of repr_exact "\<lambda>d i. 0" Map.empty]
  from t [THEN conjunct2, THEN conjunct2, THEN conjunct2, THEN conjunct2, rule_format, OF refl]
  have "exit_status (Inl (OSError (Write ''data/uniform.txt'' 3))) = 1" by (rule conjunct2 [THEN conjunct1])
  with failing_run_pair [of repr_exact "\<lambda>d i. 0" "start Map.empty"]
    t [THEN conjunct1] t [THEN conjunct2, THEN conjunct1]
  show ?thesis by (intro conjI)
qed

text \<open>
  C9: when the run ends with an error on one file, the files later in the script are as
  they were before the run, and the trace holds no effect on them.
\<close>

theorem failure_leaves_later_files_untouched:
  assumes "gensamples ok fmt g (start fs) = (Inl (OSError op), s')"
  shows "(path_of op = ''data/normal.txt'' \<or> path_of op = ''data/uniform.txt'' \<or>
          path_of op = ''data/exponential.txt'') \<and>
     (path_of op = ''data/normal.txt'' \<longrightarrow>
        files s' ''data/uniform.txt'' = fs ''data/uniform.txt'' \<and>
        files s' ''data/exponential.txt'' = fs ''data/exponential.txt'' \<and>
        (\<forall>e\<in>set (trace s'). target e = ''data/normal.txt'')) \<and>
     (path_of op = ''data/uniform.txt'' \<longrightarrow>
        files s' ''data/exponential.txt'' = fs ''data/exponential.txt'' \<and>
        (\<forall>e\<in>set (trace s'). target e \<noteq> ''data/exponential.txt''))"
proof -
  have fs: "fst (gensamples ok fmt g (start fs)) = Inl (OSError op)"
    "snd (gensamples ok fmt g (start fs)) = s'"
    by (simp_all add: assms)
  show ?thesis
    by (rule blocks_failfast [OF file_of_simps refl refl refl gensamples_blocks paths_distinct
      start_simps(1) fs(1), unfolded fs start_simps(3)])
qed

theorem failure_leaves_later_files_untouched_witness:
  "gensamples (\<lambda>op. op \<noteq> Write ''data/uniform.txt'' 3) repr_exact (\<lambda>d i. 0)
       (start [''data/exponential.txt'' \<mapsto> ''kept'']) =
     (Inl (OSError (Write ''data/uniform.txt'' 3)),
      snd (gensamples (\<lambda>op. op \<noteq> Write ''data/uniform.txt'' 3) repr_exact (\<lambda>d i. 0)
        (start [''data/exponential.txt'' \<mapsto> ''kept'']))) \<and>
   files (snd (gensamples (\<lambda>op. op \<noteq> Write ''data/uniform.txt'' 3) repr_exact (\<lambda>d i. 0)
        (start [''data/exponential.txt'' \<mapsto> ''kept''])))
     ''data/exponential.txt'' = Some ''kept''"
proof -
  note t = failure_leaves_later_files_untouched [OF failing_run_pair, of repr_exact "\<lambda>d i. 0"
      "[''data/exponential.txt'' \<mapsto> ''kept'']"]
  from t [THEN conjunct2, THEN conjunct2]
  have "files (snd (gensamples (\<lambda>op. op \<noteq> Write ''data/uniform.txt'' 3) repr_exact (\<lambda>d i. 0)
        (start [''data/exponential.txt'' \<mapsto> ''kept''])))
     ''data/exponential.txt'' = Some ''kept''"
    by simp
  with failing_run_pair [of repr_exact "\<lambda>d i. 0" "start [''data/exponential.txt'' \<mapsto> ''kept'']"]
  show ?thesis by (intro conjI)
qed

end
